theory Spec2Isabelle
  imports Main
begin


section \<open>Shared helpers\<close>

text \<open>
  The TypeScript sources read optional values with \<^verbatim>\<open>a ?? b\<close> and
  \<^verbatim>\<open>o?.f\<close>. An absent (undefined) value is \<open>None\<close>.
\<close>

definition nullish :: "'a option \<Rightarrow> 'a \<Rightarrow> 'a" where
  "nullish a b = (case a of None \<Rightarrow> b | Some v \<Rightarrow> v)"

definition optchain :: "'r option \<Rightarrow> ('r \<Rightarrow> 'a option) \<Rightarrow> 'a option" where
  "optchain r f = (case r of None \<Rightarrow> None | Some x \<Rightarrow> f x)"

section \<open>Configuration\<close>

text \<open>
  Modelled from the spec: the module config.js (getConfig) is not among the sources.
  The record holds the recognised options the core reads: limits.maxConcurrency,
  cache.enabled, rateLimit.enabled and retry.maxAttempts, retry.baseDelayMs,
  retry.maxDelayMs. Numbers are integers here; fractional values and the rounding of
  JavaScript doubles are outside the model.
\<close>

record Config =
  limits_maxConcurrency :: int
  cache_enabled :: bool
  rateLimit_enabled :: bool
  retry_maxAttempts :: int
  retry_baseDelayMs :: int
  retry_maxDelayMs :: int

section \<open>Retry helper (utils/retry.ts)\<close>

record RetryOptions =
  maxAttempts :: "int option"
  baseDelayMs :: "int option"
  maxDelayMs :: "int option"

text \<open>
  What a run of \<open>withRetry\<close> does, in order: \<open>Attempt k\<close> is the k-th call of
  \<open>fn\<close>, \<open>Delay d\<close> is the timer \<^verbatim>\<open>setTimeout(r, d)\<close> it awaits.
\<close>

datatype retry_event = Attempt int | Delay int

text \<open>
  The operation \<open>fn\<close> is effectful: it takes the state of the world and returns its
  settled outcome (\<open>Inl err\<close> when the promise rejects, \<open>Inr v\<close> when it fulfils)
  with the new state. The variable \<open>lastError\<close> starts undefined (\<open>None\<close>). The
  result is \<open>Inl lastError\<close> when \<open>withRetry\<close> rejects.
\<close>

function withRetry_loop ::
  "('s \<Rightarrow> ('e + 'a) \<times> 's) \<Rightarrow> int \<Rightarrow> int \<Rightarrow> int \<Rightarrow> int \<Rightarrow> 'e option \<Rightarrow> 's
    \<Rightarrow> ('e option + 'a) \<times> 's \<times> retry_event list" where
  "withRetry_loop fn maxA baseD maxD attempt lastError s =
     (if attempt \<le> maxA then
        (case fn s of
           (Inr v, s') \<Rightarrow> (Inr v, s', [Attempt attempt])
         | (Inl err, s') \<Rightarrow>
             if attempt = maxA then (Inl (Some err), s', [Attempt attempt])
             else
               (let delay = min (baseD * 2 ^ nat (attempt - 1)) maxD;
                    (r, s'', evs) = withRetry_loop fn maxA baseD maxD (attempt + 1) (Some err) s'
                in (r, s'', Attempt attempt # Delay delay # evs)))
      else (Inl lastError, s, []))"
  by pat_completeness auto
termination
  by (relation "measure (\<lambda>(fn, maxA, baseD, maxD, attempt, lastError, s). nat (maxA + 1 - attempt))")
    auto

declare withRetry_loop.simps [simp del]

definition withRetry ::
  "Config \<Rightarrow> ('s \<Rightarrow> ('e + 'a) \<times> 's) \<Rightarrow> RetryOptions option \<Rightarrow> 's
    \<Rightarrow> ('e option + 'a) \<times> 's \<times> retry_event list" where
  "withRetry cfg fn opts s =
     (let maxAttempts = nullish (optchain opts maxAttempts) (retry_maxAttempts cfg);
          baseDelayMs = nullish (optchain opts baseDelayMs) (retry_baseDelayMs cfg);
          maxDelayMs = nullish (optchain opts maxDelayMs) (retry_maxDelayMs cfg)
      in withRetry_loop fn maxAttempts baseDelayMs maxDelayMs 1 None s)"

text \<open>
  For the statements: \<open>outcome_at fn s k\<close> is what the (k+1)-th consecutive call of
  \<open>fn\<close> returns when the calls start in state \<open>s\<close>, and \<open>schedule_from b m a n\<close> is
  the run of the attempts \<open>a\<close> to \<open>n\<close> with the backoff delay after each attempt but
  the last.
\<close>

fun outcome_at :: "('s \<Rightarrow> ('e + 'a) \<times> 's) \<Rightarrow> 's \<Rightarrow> nat \<Rightarrow> ('e + 'a) \<times> 's" where
  "outcome_at fn s 0 = fn s"
| "outcome_at fn s (Suc k) = outcome_at fn (snd (fn s)) k"

definition backoff :: "int \<Rightarrow> int \<Rightarrow> int \<Rightarrow> int" where
  "backoff b m k = min (b * 2 ^ nat (k - 1)) m"

definition schedule_from :: "int \<Rightarrow> int \<Rightarrow> int \<Rightarrow> int \<Rightarrow> retry_event list" where
  "schedule_from b m a n =
     concat (map (\<lambda>k. [Attempt k, Delay (backoff b m k)]) [a..n - 1]) @ [Attempt n]"

definition attempts :: "retry_event list \<Rightarrow> int list" where
  "attempts evs = concat (map (\<lambda>e. case e of Attempt k \<Rightarrow> [k] | Delay d \<Rightarrow> []) evs)"

definition delays :: "retry_event list \<Rightarrow> int list" where
  "delays evs = concat (map (\<lambda>e. case e of Attempt k \<Rightarrow> [] | Delay d \<Rightarrow> [d]) evs)"

text \<open>The three values \<open>withRetry\<close> binds from its options and the configuration.\<close>

definition effective_maxAttempts :: "Config \<Rightarrow> RetryOptions option \<Rightarrow> int" where
  "effective_maxAttempts cfg opts = nullish (optchain opts maxAttempts) (retry_maxAttempts cfg)"

definition effective_baseDelayMs :: "Config \<Rightarrow> RetryOptions option \<Rightarrow> int" where
  "effective_baseDelayMs cfg opts = nullish (optchain opts baseDelayMs) (retry_baseDelayMs cfg)"

definition effective_maxDelayMs :: "Config \<Rightarrow> RetryOptions option \<Rightarrow> int" where
  "effective_maxDelayMs cfg opts = nullish (optchain opts maxDelayMs) (retry_maxDelayMs cfg)"

subsection \<open>Concrete inputs for the retry helper\<close>

text \<open>An operation that fails twice and then succeeds; the state counts its calls.\<close>

definition flaky :: "nat \<Rightarrow> (string + nat) \<times> nat" where
  "flaky s = (if s < 2 then Inl ''boom'' else Inr (s * 10), s + 1)"

definition retry_cfg0 :: Config where
  "retry_cfg0 = \<lparr>limits_maxConcurrency = 2, cache_enabled = False, rateLimit_enabled = False,
     retry_maxAttempts = 3, retry_baseDelayMs = 100, retry_maxDelayMs = 150\<rparr>"

section \<open>Task graph (planner/types.ts, planner/task-graph.ts)\<close>

text \<open>
  Modelled from the spec: planner/types.ts is not among the sources. The types follow
  the data model of the spec and the fields the sources read (\<open>node.id\<close>,
  \<open>node.task\<close>, \<open>node.dependsOn\<close>, \<open>node.assignTo\<close>, \<open>node.status\<close>,
  \<open>node.result\<close>, \<open>node.config?.retries\<close>, \<open>graph.nodes\<close>). The field \<open>id\<close> is
  \<open>node_id\<close> here. A \<open>TaskResult\<close> is
  \<^verbatim>\<open>{status: "ok" | "error", output}\<close>; its field \<open>output\<close> is \<open>result_output\<close> here.
\<close>

datatype Status = Pending | Running | Done | Failed | Skipped

datatype TaskResult = Ok (result_output: string) | Error (result_output: string)

record NodeConfig =
  retries :: "int option"

record TaskNode =
  node_id :: string
  task :: string
  dependsOn :: "string list"
  assignTo :: "string option"
  status :: Status
  result :: "TaskResult option"
  config :: "NodeConfig option"

record TaskGraph =
  goal :: string
  nodes :: "TaskNode list"
  synthesizerPrompt :: "string option"

text \<open>
  Modelled from the spec: planner/task-graph.ts (\<open>isComplete\<close>, \<open>readyNodes\<close>,
  \<open>skipDownstream\<close>) is not among the sources. \<open>isComplete\<close>: every node is in a
  terminal status. \<open>readyNodes\<close>: the nodes whose status is pending and whose every
  dependency has status done, found by iterating the node sequence and filtering. The
  executor mutates the node objects it gets back, so a node is named by its position
  in \<open>graph.nodes\<close>: \<open>readyNodes\<close> returns positions. A dependency is looked up by
  id; one that names no node is not done.
\<close>

definition isTerminal :: "Status \<Rightarrow> bool" where
  "isTerminal s = (s = Done \<or> s = Failed \<or> s = Skipped)"

definition isComplete :: "TaskGraph \<Rightarrow> bool" where
  "isComplete g = list_all (\<lambda>n. isTerminal (status n)) (nodes g)"

definition depDone :: "TaskNode list \<Rightarrow> string \<Rightarrow> bool" where
  "depDone ns d = (case find (\<lambda>m. node_id m = d) ns of None \<Rightarrow> False | Some m \<Rightarrow> status m = Done)"

definition isReady :: "TaskNode list \<Rightarrow> TaskNode \<Rightarrow> bool" where
  "isReady ns n = (status n = Pending \<and> list_all (depDone ns) (dependsOn n))"

definition readyNodes :: "TaskGraph \<Rightarrow> nat list" where
  "readyNodes g = filter (\<lambda>i. isReady (nodes g) (nodes g ! i)) [0..<length (nodes g)]"

text \<open>
  Modelled from the spec: \<open>skipDownstream(graph, failedId)\<close> transitively marks every
  node still pending whose dependency closure contains \<open>failedId\<close> as skipped; nodes
  in any other status are left as they are. \<open>downstream k ns acc\<close> adds to \<open>acc\<close>,
  \<open>k\<close> times over, the ids of the nodes with a dependency in \<open>acc\<close>; after
  \<open>length ns\<close> rounds nothing more can be added.
\<close>

fun downstream :: "nat \<Rightarrow> TaskNode list \<Rightarrow> string list \<Rightarrow> string list" where
  "downstream 0 ns acc = acc"
| "downstream (Suc k) ns acc =
     downstream k ns
       (acc @ map node_id (filter (\<lambda>n. list_ex (\<lambda>d. d \<in> set acc) (dependsOn n)) ns))"

definition dependsOnClosure :: "TaskNode list \<Rightarrow> TaskNode \<Rightarrow> string \<Rightarrow> bool" where
  "dependsOnClosure ns n failedId =
     list_ex (\<lambda>d. d \<in> set (downstream (length ns) ns [failedId])) (dependsOn n)"

definition skipDownstream :: "TaskGraph \<Rightarrow> string \<Rightarrow> TaskGraph" where
  "skipDownstream g failedId =
     g\<lparr>nodes :=
         map (\<lambda>n. if status n = Pending \<and> dependsOnClosure (nodes g) n failedId
                  then n\<lparr>status := Skipped\<rparr> else n)
           (nodes g)\<rparr>"


section \<open>Executor (executor/executor.ts)\<close>

subsection \<open>What the executor is given\<close>

text \<open>
  Modelled from the spec: agents/adapter.ts and agents/registry.ts are not among the
  sources. An agent adapter has a name, capabilities and \<open>execute(node)\<close>. A call of
  \<open>execute\<close> is effectful and may reject: it takes the state of the world \<open>'w\<close>
  (everything outside the executor that agents and callbacks can read and change,
  the abort signal included) and returns \<open>Inl reason\<close> when the promise rejects or
  \<open>Inr result\<close> when it fulfils, with the new state. The registry is given by its
  two operations \<open>pick\<close> and \<open>list\<close>.
\<close>

record ('e, 'w) AgentAdapter =
  name :: string
  capabilities :: "string list"
  execute :: "TaskNode \<Rightarrow> 'w \<Rightarrow> ('e + TaskResult) \<times> 'w"

record ('e, 'w) AgentRegistry =
  pick :: "string \<Rightarrow> ('e, 'w) AgentAdapter option"
  list :: "('e, 'w) AgentAdapter list"

text \<open>
  Modelled from the spec: executor/types.ts is not among the sources. The options are
  the ones \<open>execute\<close> reads. A callback may change the world. The result leaves out
  \<open>durationMs\<close>, a difference of two wall-clock readings.
\<close>

record 'w ExecutionOptions =
  maxConcurrency :: "int option"
  abortSignal :: "('w \<Rightarrow> bool) option"
  onNodeStart :: "(string \<Rightarrow> 'w \<Rightarrow> 'w) option"
  onNodeEnd :: "(string \<Rightarrow> TaskResult \<Rightarrow> 'w \<Rightarrow> 'w) option"

record ExecutionResult =
  graph :: TaskGraph
  success :: bool
  nodeResults :: "string \<rightharpoonup> TaskResult"

text \<open>
  The executor object with the modules it imports: its registry, the configuration
  \<open>getConfig()\<close>, the key function \<open>Cache.taskKey\<close> (utils/cache.ts is not among
  the sources; the function is a parameter) and \<open>String_of\<close>, JavaScript's
  \<open>String(reason)\<close> on a rejection reason.
\<close>

record ('e, 'w) Executor =
  agents :: "('e, 'w) AgentRegistry"
  getConfig :: Config
  taskKey :: "string \<Rightarrow> string \<Rightarrow> string"
  String_of :: "'e \<Rightarrow> string"

text \<open>A rejection reason is \<open>None\<close> when it is the value undefined.\<close>

definition String_reason :: "('e, 'w) Executor \<Rightarrow> 'e option \<Rightarrow> string" where
  "String_reason env reason = (case reason of None \<Rightarrow> ''undefined'' | Some e \<Rightarrow> String_of env e)"

subsection \<open>The state of a run\<close>

text \<open>
  The calls the executor makes to its collaborators, in order: the two callbacks
  (the call sites \<^verbatim>\<open>opts?.onNodeStart?.(id)\<close> and \<^verbatim>\<open>opts?.onNodeEnd?.(id, result)\<close>,
  reached whether or not a callback is set), \<open>agentRateLimiters.acquire\<close>,
  \<open>agent.execute\<close> (agent name, node id), the delay of the retry helper,
  \<open>taskCache.set\<close> and \<open>skipDownstream\<close>. Logging is not modelled.
\<close>

datatype event =
    NodeStart string
  | NodeEnd string TaskResult
  | Acquire string
  | AgentExecute string string
  | RetryDelay int
  | CacheSet string string
  | SkipDownstream string

text \<open>
  The state: the graph being mutated, the local \<open>nodeResults\<close>, the task cache, the
  world, the calls made so far, and the statuses of all nodes after each write to a
  status (\<open>st_history\<close>, for statements about every instant of a run).

  Modelled from the spec: the cache (utils/cache.ts) is a map from key to value that
  holds the fresh entries: \<open>get\<close> returns the value of a fresh entry and absent
  otherwise, \<open>set\<close> inserts or overwrites. The expiry of entries with time is not
  modelled. The rate limiter only delays its caller; it is the event \<open>Acquire\<close>.
\<close>

record 'w ExecState =
  st_graph :: TaskGraph
  st_nodeResults :: "string \<rightharpoonup> TaskResult"
  st_cache :: "string \<rightharpoonup> string"
  st_world :: 'w
  st_trace :: "event list"
  st_history :: "Status list list"

definition emit :: "event \<Rightarrow> 'w ExecState \<Rightarrow> 'w ExecState" where
  "emit e st = st\<lparr>st_trace := st_trace st @ [e]\<rparr>"

definition callback :: "('w \<Rightarrow> 'w) option \<Rightarrow> 'w ExecState \<Rightarrow> 'w ExecState" where
  "callback f st = (case f of None \<Rightarrow> st | Some h \<Rightarrow> st\<lparr>st_world := h (st_world st)\<rparr>)"

definition setStatus :: "nat \<Rightarrow> Status \<Rightarrow> 'w ExecState \<Rightarrow> 'w ExecState" where
  "setStatus i s st =
     (let g = st_graph st;
          g' = g\<lparr>nodes := (nodes g)[i := (nodes g ! i)\<lparr>status := s\<rparr>]\<rparr>
      in st\<lparr>st_graph := g', st_history := st_history st @ [map status (nodes g')]\<rparr>)"

definition setResult :: "nat \<Rightarrow> TaskResult \<Rightarrow> 'w ExecState \<Rightarrow> 'w ExecState" where
  "setResult i r st =
     (let g = st_graph st
      in st\<lparr>st_graph := g\<lparr>nodes := (nodes g)[i := (nodes g ! i)\<lparr>result := Some r\<rparr>]\<rparr>\<rparr>)"

definition recordResult :: "string \<Rightarrow> TaskResult \<Rightarrow> 'w ExecState \<Rightarrow> 'w ExecState" where
  "recordResult k r st = st\<lparr>st_nodeResults := (st_nodeResults st)(k \<mapsto> r)\<rparr>"

definition call_onNodeStart ::
  "'w ExecutionOptions option \<Rightarrow> string \<Rightarrow> 'w ExecState \<Rightarrow> 'w ExecState" where
  "call_onNodeStart opts k st =
     callback (map_option (\<lambda>h. h k) (optchain opts onNodeStart)) (emit (NodeStart k) st)"

definition call_onNodeEnd ::
  "'w ExecutionOptions option \<Rightarrow> string \<Rightarrow> TaskResult \<Rightarrow> 'w ExecState \<Rightarrow> 'w ExecState" where
  "call_onNodeEnd opts k r st =
     callback (map_option (\<lambda>h. h k r) (optchain opts onNodeEnd)) (emit (NodeEnd k r) st)"

text \<open>
  \<open>skipDownstream\<close> only turns pending nodes into skipped ones, so one entry of the
  history after the call stands for all its writes.
\<close>

definition call_skipDownstream :: "string \<Rightarrow> 'w ExecState \<Rightarrow> 'w ExecState" where
  "call_skipDownstream k st =
     (let g' = skipDownstream (st_graph st) k
      in st\<lparr>st_graph := g', st_trace := st_trace st @ [SkipDownstream k],
            st_history := st_history st @ [map status (nodes g')]\<rparr>)"

subsection \<open>executeNode\<close>

text \<open>
  \<open>executeNode\<close> is an async function: it runs without interruption up to its first
  \<open>await\<close>, which comes after the cache check. \<open>executeNode_sync\<close> is that first
  part (mark running, \<open>onNodeStart\<close>, resolve the agent, consult the cache). It
  either has the result already or is suspended with the agent and the cache key.
  \<open>executeNode_async\<close> is the rest: rate limiter, the agent call with or without
  retry, the cache write.
\<close>

datatype ('e, 'w) Continuation =
    Returned TaskResult
  | Suspended "('e, 'w) AgentAdapter" string

datatype 'e Settled = Fulfilled TaskResult | Rejected "'e option"

text \<open>\<^verbatim>\<open>node.assignTo ? pick(node.assignTo) : list()[0]\<close>: the empty string is falsy.\<close>

definition resolveAgent :: "('e, 'w) Executor \<Rightarrow> TaskNode \<Rightarrow> ('e, 'w) AgentAdapter option" where
  "resolveAgent env node =
     (case assignTo node of
        None \<Rightarrow> (case list (agents env) of [] \<Rightarrow> None | a # _ \<Rightarrow> Some a)
      | Some sel \<Rightarrow>
          if sel = [] then (case list (agents env) of [] \<Rightarrow> None | a # _ \<Rightarrow> Some a)
          else pick (agents env) sel)"

definition noAgentMessage :: "TaskNode \<Rightarrow> string" where
  "noAgentMessage node =
     ''No agent available for task '' @ [CHR 0x22] @ node_id node @ [CHR 0x22]
       @ '' (requested: '' @ nullish (assignTo node) ''any'' @ '')''"

definition executeNode_sync ::
  "('e, 'w) Executor \<Rightarrow> 'w ExecutionOptions option \<Rightarrow> nat \<Rightarrow> 'w ExecState
    \<Rightarrow> ('e, 'w) Continuation \<times> 'w ExecState" where
  "executeNode_sync env opts i st =
     (let st1 = setStatus i Running st;
          node = nodes (st_graph st1) ! i;
          st2 = call_onNodeStart opts (node_id node) st1
      in case resolveAgent env node of
           None \<Rightarrow> (Returned (Error (noAgentMessage node)), st2)
         | Some agent \<Rightarrow>
             (let cfg = getConfig env;
                  cacheKey = taskKey env (task node) (name agent)
              in if cache_enabled cfg then
                   (case st_cache st2 cacheKey of
                      Some cached \<Rightarrow> (Returned (Ok cached), st2)
                    | None \<Rightarrow> (Suspended agent cacheKey, st2))
                 else (Suspended agent cacheKey, st2)))"

definition agent_event :: "string \<Rightarrow> string \<Rightarrow> retry_event \<Rightarrow> event" where
  "agent_event a k e = (case e of Attempt _ \<Rightarrow> AgentExecute a k | Delay d \<Rightarrow> RetryDelay d)"

text \<open>
  \<^verbatim>\<open>retries > 0 ? withRetry(run, { maxAttempts: retries + 1 }) : run()\<close>, with
  \<open>run\<close> the call \<open>agent.execute(node)\<close>. The plain call is one attempt.
\<close>

definition invokeAgent ::
  "Config \<Rightarrow> ('e, 'w) AgentAdapter \<Rightarrow> TaskNode \<Rightarrow> 'w
    \<Rightarrow> ('e option + TaskResult) \<times> 'w \<times> retry_event list" where
  "invokeAgent cfg agent node w =
     (let run = execute agent node;
          retries = nullish (optchain (config node) retries) 0
      in if retries > 0 then
           withRetry cfg run
             (Some \<lparr>maxAttempts = Some (retries + 1), baseDelayMs = None, maxDelayMs = None\<rparr>) w
         else (case run w of
                 (Inl e, w') \<Rightarrow> (Inl (Some e), w', [Attempt 1])
               | (Inr v, w') \<Rightarrow> (Inr v, w', [Attempt 1])))"

definition executeNode_async ::
  "('e, 'w) Executor \<Rightarrow> nat \<Rightarrow> ('e, 'w) AgentAdapter \<Rightarrow> string \<Rightarrow> 'w ExecState
    \<Rightarrow> 'e Settled \<times> 'w ExecState" where
  "executeNode_async env i agent cacheKey st =
     (let cfg = getConfig env;
          st1 = (if rateLimit_enabled cfg then emit (Acquire (name agent)) st else st);
          node = nodes (st_graph st1) ! i
      in case invokeAgent cfg agent node (st_world st1) of
           (r, w', evs) \<Rightarrow>
             (let st2 = st1\<lparr>st_world := w',
                     st_trace := st_trace st1 @ map (agent_event (name agent) (node_id node)) evs\<rparr>
              in case r of
                   Inl reason \<Rightarrow> (Rejected reason, st2)
                 | Inr res \<Rightarrow>
                     (case res of
                        Ok out \<Rightarrow>
                          if cache_enabled cfg then
                            (Fulfilled res,
                             emit (CacheSet cacheKey out)
                               (st2\<lparr>st_cache := (st_cache st2)(cacheKey \<mapsto> out)\<rparr>))
                          else (Fulfilled res, st2)
                      | Error _ \<Rightarrow> (Fulfilled res, st2))))"

definition resume ::
  "('e, 'w) Executor \<Rightarrow> nat \<Rightarrow> ('e, 'w) Continuation \<Rightarrow> 'w ExecState \<Rightarrow> 'e Settled \<times> 'w ExecState" where
  "resume env i c st =
     (case c of
        Returned r \<Rightarrow> (Fulfilled r, st)
      | Suspended agent cacheKey \<Rightarrow> executeNode_async env i agent cacheKey st)"

text \<open>One call of \<open>executeNode\<close> running alone, from its start to its settled promise.\<close>

definition executeNode ::
  "('e, 'w) Executor \<Rightarrow> 'w ExecutionOptions option \<Rightarrow> nat \<Rightarrow> 'w ExecState
    \<Rightarrow> 'e Settled \<times> 'w ExecState" where
  "executeNode env opts i st =
     (case executeNode_sync env opts i st of (c, st1) \<Rightarrow> resume env i c st1)"

subsection \<open>execute\<close>

text \<open>
  One batch. \<open>batch.map(executeNode)\<close> starts every node of the batch in order: each
  call runs its first part before the next call starts, and no call resumes before
  the last one is started. Then \<open>Promise.allSettled\<close> waits for all of them. The
  agents' effects on the world are taken in batch order here; a real run may
  interleave them otherwise.
\<close>

fun start_all ::
  "('e, 'w) Executor \<Rightarrow> 'w ExecutionOptions option \<Rightarrow> nat list \<Rightarrow> 'w ExecState
    \<Rightarrow> ('e, 'w) Continuation list \<times> 'w ExecState" where
  "start_all env opts [] st = ([], st)"
| "start_all env opts (i # is) st =
     (case executeNode_sync env opts i st of
        (c, st1) \<Rightarrow> (case start_all env opts is st1 of (cs, st2) \<Rightarrow> (c # cs, st2)))"

fun allSettled ::
  "('e, 'w) Executor \<Rightarrow> (nat \<times> ('e, 'w) Continuation) list \<Rightarrow> 'w ExecState
    \<Rightarrow> 'e Settled list \<times> 'w ExecState" where
  "allSettled env [] st = ([], st)"
| "allSettled env ((i, c) # rest) st =
     (case resume env i c st of
        (r, st1) \<Rightarrow> (case allSettled env rest st1 of (rs, st2) \<Rightarrow> (r # rs, st2)))"

text \<open>The body of the loop over the settled results, for the node at position \<open>i\<close>.\<close>

definition settle_node ::
  "('e, 'w) Executor \<Rightarrow> 'w ExecutionOptions option \<Rightarrow> nat \<Rightarrow> 'e Settled \<Rightarrow> 'w ExecState
    \<Rightarrow> 'w ExecState" where
  "settle_node env opts i settled st =
     (let k = node_id (nodes (st_graph st) ! i)
      in case settled of
           Fulfilled res \<Rightarrow>
             (let st1 = recordResult k res (setResult i res st)
              in case res of
                   Ok _ \<Rightarrow> call_onNodeEnd opts k res (setStatus i Done st1)
                 | Error _ \<Rightarrow>
                     call_skipDownstream k (call_onNodeEnd opts k res (setStatus i Failed st1)))
         | Rejected reason \<Rightarrow>
             (let res = Error (String_reason env reason);
                  st1 = setResult i res st;
                  st2 = setStatus i Failed st1;
                  st3 = recordResult k res st2;
                  st4 = call_onNodeEnd opts k res st3
              in call_skipDownstream k st4))"

fun settle_all ::
  "('e, 'w) Executor \<Rightarrow> 'w ExecutionOptions option \<Rightarrow> (nat \<times> 'e Settled) list \<Rightarrow> 'w ExecState
    \<Rightarrow> 'w ExecState" where
  "settle_all env opts [] st = st"
| "settle_all env opts ((i, settled) # rest) st =
     settle_all env opts rest (settle_node env opts i settled st)"

definition run_batch ::
  "('e, 'w) Executor \<Rightarrow> 'w ExecutionOptions option \<Rightarrow> nat list \<Rightarrow> 'w ExecState \<Rightarrow> 'w ExecState" where
  "run_batch env opts batch st =
     (case start_all env opts batch st of
        (cs, st1) \<Rightarrow>
          (case allSettled env (zip batch cs) st1 of
             (results, st2) \<Rightarrow> settle_all env opts (zip batch results) st2))"

text \<open>\<^verbatim>\<open>xs.slice(0, e)\<close>: a negative end counts from the end of the array.\<close>

definition slice0 :: "'a list \<Rightarrow> int \<Rightarrow> 'a list" where
  "slice0 xs e = (if e < 0 then take (nat (int (length xs) + e)) xs else take (nat e) xs)"

definition is_aborted :: "'w ExecutionOptions option \<Rightarrow> 'w \<Rightarrow> bool" where
  "is_aborted opts w = (case optchain opts abortSignal of None \<Rightarrow> False | Some aborted \<Rightarrow> aborted w)"

text \<open>The abort branch: every pending node becomes skipped.\<close>

definition skip_pending :: "'w ExecState \<Rightarrow> 'w ExecState" where
  "skip_pending st =
     (let g = st_graph st;
          g' = g\<lparr>nodes := map (\<lambda>n. if status n = Pending then n\<lparr>status := Skipped\<rparr> else n) (nodes g)\<rparr>
      in st\<lparr>st_graph := g', st_history := st_history st @ [map status (nodes g')]\<rparr>)"

text \<open>
  The scheduling loop. It need not end (a batch is empty when \<open>maxConcurrency\<close> is 0),
  so it runs on fuel: one unit per test of the loop condition, \<open>None\<close> when the fuel
  is used up before the loop exits.
\<close>

fun execute_loop ::
  "nat \<Rightarrow> ('e, 'w) Executor \<Rightarrow> 'w ExecutionOptions option \<Rightarrow> int \<Rightarrow> 'w ExecState
    \<Rightarrow> 'w ExecState option" where
  "execute_loop 0 env opts maxC st = None"
| "execute_loop (Suc fuel) env opts maxC st =
     (if isComplete (st_graph st) then Some st
      else if is_aborted opts (st_world st) then Some (skip_pending st)
      else
        (let ready = readyNodes (st_graph st)
         in if ready = [] then Some st
            else execute_loop fuel env opts maxC (run_batch env opts (slice0 ready maxC) st)))"

definition initial_state :: "TaskGraph \<Rightarrow> (string \<rightharpoonup> string) \<Rightarrow> 'w \<Rightarrow> 'w ExecState" where
  "initial_state g cache w =
     \<lparr>st_graph = g, st_nodeResults = Map.empty, st_cache = cache, st_world = w,
      st_trace = [], st_history = [map status (nodes g)]\<rparr>"

definition effective_maxConcurrency :: "('e, 'w) Executor \<Rightarrow> 'w ExecutionOptions option \<Rightarrow> int" where
  "effective_maxConcurrency env opts =
     nullish (optchain opts maxConcurrency) (limits_maxConcurrency (getConfig env))"

text \<open>
  A run of \<open>execute\<close> on a graph, from a given cache and world: the final state, and
  the \<open>ExecutionResult\<close> made of it.
\<close>

definition execute_run ::
  "nat \<Rightarrow> ('e, 'w) Executor \<Rightarrow> TaskGraph \<Rightarrow> 'w ExecutionOptions option \<Rightarrow> (string \<rightharpoonup> string) \<Rightarrow> 'w
    \<Rightarrow> 'w ExecState option" where
  "execute_run fuel env g opts cache w =
     execute_loop fuel env opts (effective_maxConcurrency env opts) (initial_state g cache w)"

definition toResult :: "'w ExecState \<Rightarrow> ExecutionResult" where
  "toResult st =
     \<lparr>graph = st_graph st,
      success = list_all (\<lambda>n. status n = Done) (nodes (st_graph st)),
      nodeResults = st_nodeResults st\<rparr>"

definition Executor_execute ::
  "nat \<Rightarrow> ('e, 'w) Executor \<Rightarrow> TaskGraph \<Rightarrow> 'w ExecutionOptions option \<Rightarrow> (string \<rightharpoonup> string) \<Rightarrow> 'w
    \<Rightarrow> ExecutionResult option" where
  "Executor_execute fuel env g opts cache w =
     map_option toResult (execute_run fuel env g opts cache w)"

text \<open>For the statements: the agent calls and the retry delays among a list of events.\<close>

definition is_AgentExecute :: "event \<Rightarrow> bool" where
  "is_AgentExecute e = (case e of AgentExecute _ _ \<Rightarrow> True | _ \<Rightarrow> False)"

definition is_RetryDelay :: "event \<Rightarrow> bool" where
  "is_RetryDelay e = (case e of RetryDelay _ \<Rightarrow> True | _ \<Rightarrow> False)"

definition settled_of :: "('e option + TaskResult) \<Rightarrow> 'e Settled" where
  "settled_of r = (case r of Inl e \<Rightarrow> Rejected e | Inr v \<Rightarrow> Fulfilled v)"

text \<open>
  For the statements: the result a settled promise stands for, the status it gives
  the node, the marking \<open>skipDownstream\<close> applies to one node, and the number of
  running nodes in a list of statuses.
\<close>

definition result_of_settled :: "('e, 'w) Executor \<Rightarrow> 'e Settled \<Rightarrow> TaskResult" where
  "result_of_settled env settled =
     (case settled of Fulfilled r \<Rightarrow> r | Rejected reason \<Rightarrow> Error (String_reason env reason))"

definition final_status :: "TaskResult \<Rightarrow> Status" where
  "final_status res = (case res of Ok _ \<Rightarrow> Done | Error _ \<Rightarrow> Failed)"

definition skip_mark :: "TaskNode list \<Rightarrow> string \<Rightarrow> TaskNode \<Rightarrow> TaskNode" where
  "skip_mark ns k n =
     (if status n = Pending \<and> dependsOnClosure ns n k then n\<lparr>status := Skipped\<rparr> else n)"

definition count_running :: "Status list \<Rightarrow> nat" where
  "count_running ss = length (filter (\<lambda>s. s = Running) ss)"

definition is_NodeEnd_of :: "string \<Rightarrow> event \<Rightarrow> bool" where
  "is_NodeEnd_of k e = (case e of NodeEnd k' _ \<Rightarrow> k' = k | _ \<Rightarrow> False)"

definition settled_nodes :: "TaskNode list \<Rightarrow> nat \<Rightarrow> TaskResult \<Rightarrow> TaskNode list" where
  "settled_nodes ns i res = ns[i := (ns ! i)\<lparr>result := Some res, status := final_status res\<rparr>]"

definition nodes_after_settle :: "TaskNode list \<Rightarrow> nat \<Rightarrow> TaskResult \<Rightarrow> TaskNode list" where
  "nodes_after_settle ns i res =
     (case res of
        Ok _ \<Rightarrow> settled_nodes ns i res
      | Error _ \<Rightarrow> map (skip_mark (settled_nodes ns i res) (node_id (ns ! i))) (settled_nodes ns i res))"

text \<open>The nodes after \<open>batch.map(executeNode)\<close> has started every node of a batch.\<close>

definition mark_running :: "TaskNode list \<Rightarrow> nat list \<Rightarrow> TaskNode list" where
  "mark_running ns batch = foldl (\<lambda>xs i. xs[i := (xs ! i)\<lparr>status := Running\<rparr>]) ns batch"

definition running_at :: "TaskNode list \<Rightarrow> nat \<Rightarrow> bool" where
  "running_at ns j = (j < length ns \<and> status (ns ! j) = Running)"

definition pending_at :: "TaskNode list \<Rightarrow> nat \<Rightarrow> bool" where
  "pending_at ns j = (j < length ns \<and> status (ns ! j) = Pending)"


text \<open>The events of the second part of \<open>executeNode\<close>.\<close>

definition agent_side :: "event \<Rightarrow> bool" where
  "agent_side e =
     (case e of Acquire _ \<Rightarrow> True | AgentExecute _ _ \<Rightarrow> True | RetryDelay _ \<Rightarrow> True
      | CacheSet _ _ \<Rightarrow> True | _ \<Rightarrow> False)"

text \<open>
  An invariant of the loop: node ids are pairwise distinct, a node that is neither
  done nor failed has no result, neither in its \<open>result\<close> field nor in
  \<open>nodeResults\<close>, and every key of \<open>nodeResults\<close> is the id of a node that was
  started.
\<close>

definition results_inv :: "'w ExecState \<Rightarrow> bool" where
  "results_inv st \<longleftrightarrow>
     distinct (map node_id (nodes (st_graph st)))
     \<and> (\<forall>j < length (nodes (st_graph st)).
           status (nodes (st_graph st) ! j) \<noteq> Done \<and> status (nodes (st_graph st) ! j) \<noteq> Failed
           \<longrightarrow> result (nodes (st_graph st) ! j) = None
             \<and> st_nodeResults st (node_id (nodes (st_graph st) ! j)) = None)
     \<and> (\<forall>k. st_nodeResults st k \<noteq> None \<longrightarrow> NodeStart k \<in> set (st_trace st))"



subsection \<open>Concrete inputs for the executor\<close>

text \<open>
  One agent, \<open>a1\<close>. It rejects on the task \<open>throw\<close>, returns an error result on the
  task \<open>boom\<close> and echoes any other task. The world counts the agent calls.
\<close>

definition agent1 :: "(string, nat) AgentAdapter" where
  "agent1 =
     \<lparr>name = ''a1'', capabilities = [],
      execute = (\<lambda>node w.
        (if task node = ''throw'' then Inl ''crash''
         else if task node = ''boom'' then Inr (Error ''boom'')
         else Inr (Ok (task node)), w + 1))\<rparr>"

definition registry1 :: "(string, nat) AgentRegistry" where
  "registry1 = \<lparr>pick = (\<lambda>sel. if sel = ''a1'' then Some agent1 else None), list = [agent1]\<rparr>"

definition config1 :: Config where
  "config1 = \<lparr>limits_maxConcurrency = 2, cache_enabled = True, rateLimit_enabled = True,
     retry_maxAttempts = 3, retry_baseDelayMs = 100, retry_maxDelayMs = 150\<rparr>"

definition executor1 :: "(string, nat) Executor" where
  "executor1 = \<lparr>agents = registry1, getConfig = config1,
     taskKey = (\<lambda>t a. a @ '':'' @ t), String_of = (\<lambda>e. e)\<rparr>"

definition mkNode :: "string \<Rightarrow> string \<Rightarrow> string list \<Rightarrow> TaskNode" where
  "mkNode k t deps =
     \<lparr>node_id = k, task = t, dependsOn = deps, assignTo = None, status = Pending,
      result = None, config = None\<rparr>"

text \<open>\<open>A\<close> rejects; \<open>B\<close> and \<open>D\<close> depend on \<open>A\<close>, \<open>C\<close> on \<open>B\<close>; \<open>E\<close> stands alone.\<close>

definition graph1 :: TaskGraph where
  "graph1 =
     \<lparr>goal = ''g'',
      nodes = [mkNode ''A'' ''throw'' [], mkNode ''B'' ''tb'' [''A''], mkNode ''C'' ''tc'' [''B''],
               mkNode ''D'' ''td'' [''A''], mkNode ''E'' ''te'' []],
      synthesizerPrompt = None\<rparr>"

text \<open>Three independent nodes, and options whose signal is tripped once two agent calls are made.\<close>

definition graph2 :: TaskGraph where
  "graph2 =
     \<lparr>goal = ''g'',
      nodes = [mkNode ''N1'' ''t1'' [], mkNode ''N2'' ''t2'' [], mkNode ''N3'' ''t3'' []],
      synthesizerPrompt = None\<rparr>"

definition opts_abort :: "nat ExecutionOptions" where
  "opts_abort =
     \<lparr>maxConcurrency = Some 2, abortSignal = Some (\<lambda>w. 2 \<le> w), onNodeStart = None,
      onNodeEnd = None\<rparr>"

text \<open>
  A second agent, \<open>a2\<close>, whose first two calls reject and whose later calls succeed,
  an executor without cache and rate limiter that knows only this agent, and a graph
  of one node assigned to it with \<open>retries = 2\<close>.
\<close>

definition agent2 :: "(string, nat) AgentAdapter" where
  "agent2 =
     \<lparr>name = ''a2'', capabilities = [],
      execute = (\<lambda>node w. (if w < 2 then Inl ''down'' else Inr (Ok ''up''), w + 1))\<rparr>"

definition executor2 :: "(string, nat) Executor" where
  "executor2 =
     \<lparr>agents = \<lparr>pick = (\<lambda>sel. if sel = ''a2'' then Some agent2 else None), list = [agent2]\<rparr>,
      getConfig = \<lparr>limits_maxConcurrency = 1, cache_enabled = False, rateLimit_enabled = False,
        retry_maxAttempts = 3, retry_baseDelayMs = 100, retry_maxDelayMs = 150\<rparr>,
      taskKey = (\<lambda>t a. a @ '':'' @ t), String_of = (\<lambda>e. e)\<rparr>"

definition graph3 :: TaskGraph where
  "graph3 =
     \<lparr>goal = ''g'',
      nodes = [(mkNode ''R'' ''tr'' [])\<lparr>assignTo := Some ''a2'',
                 config := Some \<lparr>retries = Some 2\<rparr>\<rparr>],
      synthesizerPrompt = None\<rparr>"


section \<open>Errors (errors.ts)\<close>

datatype ErrorCode =
    PARSE_FAILED
  | VALIDATION_FAILED
  | DUPLICATE_REGISTRATION
  | GRAPH_INVALID
  | GATEWAY_TIMEOUT
  | GATEWAY_CONNECTION_FAILED
  | GATEWAY_PROTOCOL_ERROR
  | AGENT_EXECUTION_FAILED
  | CONFIG_MISSING

text \<open>An \<open>OrchestratorError\<close>: the name its class sets, its code and its message.\<close>

record OrchestratorError =
  error_name :: string
  code :: ErrorCode
  message :: string

definition ParseError :: "string \<Rightarrow> OrchestratorError" where
  "ParseError msg = \<lparr>error_name = ''ParseError'', code = PARSE_FAILED, message = msg\<rparr>"

definition ValidationError :: "ErrorCode \<Rightarrow> string \<Rightarrow> OrchestratorError" where
  "ValidationError c msg = \<lparr>error_name = ''ValidationError'', code = c, message = msg\<rparr>"

definition AgentError :: "string \<Rightarrow> OrchestratorError" where
  "AgentError msg = \<lparr>error_name = ''AgentError'', code = AGENT_EXECUTION_FAILED, message = msg\<rparr>"

definition ConfigError :: "string \<Rightarrow> OrchestratorError" where
  "ConfigError msg = \<lparr>error_name = ''ConfigError'', code = CONFIG_MISSING, message = msg\<rparr>"

section \<open>Planner (planner/planner.ts, schemas.ts)\<close>

subsection \<open>Stripping the fences\<close>

text \<open>
  A string is a list of code units; the model has the code units up to 255, so of
  JavaScript's white space (\<^verbatim>\<open>\s\<close>, and what \<open>trim\<close> removes) it has tab, line feed,
  vertical tab, form feed, carriage return, space and no-break space, and of the line
  terminators line feed and carriage return.
\<close>

definition is_space :: "char \<Rightarrow> bool" where
  "is_space c \<longleftrightarrow>
     c = CHR 0x09 \<or> c = CHR 0x0A \<or> c = CHR 0x0B \<or> c = CHR 0x0C \<or> c = CHR 0x0D
     \<or> c = CHR 0x20 \<or> c = CHR 0xA0"

definition is_lineTerminator :: "char \<Rightarrow> bool" where
  "is_lineTerminator c \<longleftrightarrow> c = CHR 0x0A \<or> c = CHR 0x0D"

definition fence :: string where
  "fence = [CHR 0x60, CHR 0x60, CHR 0x60]"

text \<open>
  \<open>s.replace(re, "")\<close> with a regular expression without the flag \<open>g\<close> removes the
  first match: the match at the least position where the expression matches.
  \<open>m bol rest\<close> is the length of the match that starts where \<open>rest\<close> starts, if there
  is one; \<open>bol\<close> says that this position starts a line (with the flag \<open>m\<close>, the
  start of the input or the position after a line terminator). Neither expression of
  the planner matches the empty rest.
\<close>

fun replace_first :: "(bool \<Rightarrow> string \<Rightarrow> nat option) \<Rightarrow> bool \<Rightarrow> string \<Rightarrow> string" where
  "replace_first m bol [] = []"
| "replace_first m bol (c # cs) =
     (case m bol (c # cs) of
        Some n \<Rightarrow> drop n (c # cs)
      | None \<Rightarrow> c # replace_first m (is_lineTerminator c) cs)"

text \<open>
  The first expression, \<^verbatim>\<open>/^```(?:json)?\s*\n?/m\<close>, at a position that starts a line:
  the fence, then \<open>json\<close> if it is there, then all the white space that follows (the
  greedy \<^verbatim>\<open>\s*\<close> takes the line feeds too, so \<^verbatim>\<open>\n?\<close> matches nothing more).
\<close>

definition match_leading :: "bool \<Rightarrow> string \<Rightarrow> nat option" where
  "match_leading bol rest =
     (if bol \<and> take 3 rest = fence then
        (let r1 = drop 3 rest;
             n1 = (if take 4 r1 = ''json'' then 4 else 0);
             r2 = drop n1 r1
         in Some (3 + n1 + length (takeWhile is_space r2)))
      else None)"

text \<open>
  The second expression, \<^verbatim>\<open>/\n?```\s*$/m\<close>: a line feed if there is one, the fence,
  then white space up to the end of a line (with the flag \<open>m\<close>, the end of the input
  or a position before a line terminator). The greedy \<^verbatim>\<open>\s*\<close> takes all the white
  space; when a character that is not white space follows, it gives back characters
  until a line terminator is the next one, and the match fails if there is none.
\<close>

definition last_lineTerminator :: "string \<Rightarrow> nat option" where
  "last_lineTerminator ws =
     (case filter (\<lambda>k. is_lineTerminator (ws ! k)) (rev [0..<length ws]) of
        [] \<Rightarrow> None
      | k # _ \<Rightarrow> Some k)"

definition match_trailing :: "bool \<Rightarrow> string \<Rightarrow> nat option" where
  "match_trailing bol rest =
     (let n0 = (if take 1 rest = [CHR 0x0A] then 1 else 0);
          r0 = drop n0 rest
      in if take 3 r0 = fence then
           (let r1 = drop 3 r0;
                ws = takeWhile is_space r1
            in if dropWhile is_space r1 = [] then Some (n0 + 3 + length ws)
               else (case last_lineTerminator ws of
                       None \<Rightarrow> None
                     | Some k \<Rightarrow> Some (n0 + 3 + k)))
         else None)"

definition trim :: "string \<Rightarrow> string" where
  "trim s = rev (dropWhile is_space (rev (dropWhile is_space s)))"

definition strip_leading :: "string \<Rightarrow> string" where
  "strip_leading raw = replace_first match_leading True raw"

definition strip_trailing :: "string \<Rightarrow> string" where
  "strip_trailing s = replace_first match_trailing True s"

definition cleaned :: "string \<Rightarrow> string" where
  "cleaned raw = trim (strip_trailing (strip_leading raw))"

subsection \<open>JSON values and the schema of the planner response\<close>

text \<open>
  What \<open>JSON.parse\<close> returns. Numbers play no part in the schema and are integers
  here. An object is the list of its members; \<open>map_of\<close> looks a key up.
\<close>

datatype json =
    JNull
  | JBool bool
  | JNumber int
  | JString string
  | JArray "json list"
  | JObject "(string \<times> json) list"

text \<open>
  The schemas are values of the library zod; \<open>safeParse\<close> is modelled for the
  combinators the planner schemas use. An issue is a wrong type, a string or array
  that is too short, or, where the schema gives its own message, that message. A key
  that the object does not have reads as undefined (\<open>None\<close>).
\<close>

datatype zod_issue = Invalid_type | Too_small | Custom string

definition issues_of :: "zod_issue list + 'a \<Rightarrow> zod_issue list" where
  "issues_of r = (case r of Inl is \<Rightarrow> is | Inr _ \<Rightarrow> [])"

text \<open>\<^verbatim>\<open>z.string().check(z.minLength(1))\<close>\<close>

definition z_string_min1 :: "json option \<Rightarrow> zod_issue list + string" where
  "z_string_min1 v =
     (case v of
        Some (JString s) \<Rightarrow> if length s < 1 then Inl [Too_small] else Inr s
      | _ \<Rightarrow> Inl [Invalid_type])"

text \<open>\<^verbatim>\<open>z.string().optional()\<close>\<close>

definition z_string_optional :: "json option \<Rightarrow> zod_issue list + string option" where
  "z_string_optional v =
     (case v of
        None \<Rightarrow> Inr None
      | Some (JString s) \<Rightarrow> Inr (Some s)
      | Some _ \<Rightarrow> Inl [Invalid_type])"

text \<open>\<^verbatim>\<open>z.array(z.string()).default([])\<close>\<close>

definition z_string_array_default :: "json option \<Rightarrow> zod_issue list + string list" where
  "z_string_array_default v =
     (case v of
        None \<Rightarrow> Inr []
      | Some (JArray xs) \<Rightarrow>
          (let issues = concat (map (\<lambda>x. case x of JString _ \<Rightarrow> [] | _ \<Rightarrow> [Invalid_type]) xs)
           in if issues = [] then Inr (concat (map (\<lambda>x. case x of JString s \<Rightarrow> [s] | _ \<Rightarrow> []) xs))
              else Inl issues)
      | Some _ \<Rightarrow> Inl [Invalid_type])"

text \<open>
  The parsed response (the type \<open>PlannerLlmResponse\<close>). The fields \<open>id\<close>, \<open>task\<close>,
  \<open>dependsOn\<close>, \<open>assignTo\<close>, \<open>nodes\<close> and \<open>synthesizerPrompt\<close> carry a prefix here.
\<close>

record PlannerNode =
  plan_id :: string
  plan_task :: string
  plan_dependsOn :: "string list"
  plan_assignTo :: "string option"

record PlannerLlmResponse =
  plan_nodes :: "PlannerNode list"
  plan_synthesizerPrompt :: "string option"

definition PlannerNodeSchema :: "json \<Rightarrow> zod_issue list + PlannerNode" where
  "PlannerNodeSchema j =
     (case j of
        JObject kvs \<Rightarrow>
          (let r_id = z_string_min1 (map_of kvs ''id'');
               r_task = z_string_min1 (map_of kvs ''task'');
               r_deps = z_string_array_default (map_of kvs ''dependsOn'');
               r_assign = z_string_optional (map_of kvs ''assignTo'')
           in case (r_id, r_task, r_deps, r_assign) of
                (Inr i, Inr t, Inr d, Inr a) \<Rightarrow>
                  Inr \<lparr>plan_id = i, plan_task = t, plan_dependsOn = d, plan_assignTo = a\<rparr>
              | _ \<Rightarrow> Inl (issues_of r_id @ issues_of r_task @ issues_of r_deps @ issues_of r_assign))
      | _ \<Rightarrow> Inl [Invalid_type])"

text \<open>
  \<^verbatim>\<open>z.array(PlannerNodeSchema).check(z.minLength(1, "Planner returned empty or invalid nodes array"))\<close>
\<close>

definition z_nodes :: "json option \<Rightarrow> zod_issue list + PlannerNode list" where
  "z_nodes v =
     (case v of
        Some (JArray xs) \<Rightarrow>
          (let issues = concat (map (\<lambda>x. issues_of (PlannerNodeSchema x)) xs)
           in if issues \<noteq> [] then Inl issues
              else if length xs < 1 then Inl [Custom ''Planner returned empty or invalid nodes array'']
              else Inr (concat (map (\<lambda>x. case PlannerNodeSchema x of Inr n \<Rightarrow> [n] | Inl _ \<Rightarrow> []) xs)))
      | _ \<Rightarrow> Inl [Invalid_type])"

definition PlannerResponseSchema :: "json \<Rightarrow> zod_issue list + PlannerLlmResponse" where
  "PlannerResponseSchema j =
     (case j of
        JObject kvs \<Rightarrow>
          (let r_nodes = z_nodes (map_of kvs ''nodes'');
               r_prompt = z_string_optional (map_of kvs ''synthesizerPrompt'')
           in case (r_nodes, r_prompt) of
                (Inr ns, Inr p) \<Rightarrow> Inr \<lparr>plan_nodes = ns, plan_synthesizerPrompt = p\<rparr>
              | _ \<Rightarrow> Inl (issues_of r_nodes @ issues_of r_prompt))
      | _ \<Rightarrow> Inl [Invalid_type])"

text \<open>
  \<open>parseOrThrow\<close>. The message joins the messages of the issues with \<open>; \<close>. The text
  of an issue without a message of the schema's own is zod's; it is the parameter
  \<open>zod_message\<close>.
\<close>

fun join :: "string \<Rightarrow> string list \<Rightarrow> string" where
  "join sep [] = []"
| "join sep [x] = x"
| "join sep (x # y # ys) = x @ sep @ join sep (y # ys)"

definition issue_message :: "(zod_issue \<Rightarrow> string) \<Rightarrow> zod_issue \<Rightarrow> string" where
  "issue_message zod_message i = (case i of Custom m \<Rightarrow> m | _ \<Rightarrow> zod_message i)"

definition parseOrThrow ::
  "(zod_issue \<Rightarrow> string) \<Rightarrow> (json \<Rightarrow> zod_issue list + 'a) \<Rightarrow> json \<Rightarrow> string
    \<Rightarrow> OrchestratorError + 'a" where
  "parseOrThrow zod_message schema data context =
     (case schema data of
        Inr v \<Rightarrow> Inr v
      | Inl issues \<Rightarrow>
          Inl (ValidationError VALIDATION_FAILED
                 (context @ '': '' @ join ''; '' (map (issue_message zod_message) issues))))"

subsection \<open>parseResponse and plan\<close>

text \<open>
  A call of \<open>log.error\<close> with its message and the field \<open>raw\<close> of its context.
\<close>

record log_entry =
  log_message :: string
  log_raw :: string

text \<open>
  \<open>JSON.parse\<close> is a parameter: \<open>Inl text\<close> when it throws, with \<open>text\<close> the error
  as the template string prints it, \<open>Inr value\<close> otherwise. The result comes with
  the log entries written.
\<close>

definition parseResponse ::
  "(string \<Rightarrow> string + json) \<Rightarrow> (zod_issue \<Rightarrow> string) \<Rightarrow> string
    \<Rightarrow> (OrchestratorError + PlannerLlmResponse) \<times> log_entry list" where
  "parseResponse JSON_parse zod_message raw =
     (case JSON_parse (cleaned raw) of
        Inl err \<Rightarrow>
          (Inl (ParseError (''Planner returned invalid JSON: '' @ err)),
           [\<lparr>log_message = ''Failed to parse planner response'', log_raw = take 500 raw\<rparr>])
      | Inr parsed \<Rightarrow>
          (parseOrThrow zod_message PlannerResponseSchema parsed ''Planner response'', []))"

definition buildPrompt :: "string list \<Rightarrow> string \<Rightarrow> string" where
  "buildPrompt availableAgents goal_text =
     (let prompt = ''Goal: '' @ goal_text
      in if length availableAgents > 0
         then prompt @ [CHR 0x0A, CHR 0x0A] @ ''Available agents: '' @ join '', '' availableAgents
         else prompt)"

text \<open>
  \<open>plan\<close>. The call of the language model (\<open>callLlm\<close>, which asks the planner agent
  or the gateway) and \<open>createTaskGraph\<close> (planner/task-graph.ts, not among the
  sources) are parameters; each may fail with an error.
\<close>

definition plan ::
  "(string \<Rightarrow> OrchestratorError + string)
    \<Rightarrow> (string \<Rightarrow> PlannerNode list \<Rightarrow> string option \<Rightarrow> OrchestratorError + 'g)
    \<Rightarrow> (string \<Rightarrow> string + json) \<Rightarrow> (zod_issue \<Rightarrow> string) \<Rightarrow> string list \<Rightarrow> string
    \<Rightarrow> (OrchestratorError + 'g) \<times> log_entry list" where
  "plan callLlm createTaskGraph JSON_parse zod_message availableAgents goal_text =
     (let prompt = buildPrompt availableAgents goal_text
      in case callLlm prompt of
           Inl e \<Rightarrow> (Inl e, [])
         | Inr raw \<Rightarrow>
             (case parseResponse JSON_parse zod_message raw of
                (Inl e, logs) \<Rightarrow> (Inl e, logs)
              | (Inr parsed, logs) \<Rightarrow>
                  (createTaskGraph goal_text (plan_nodes parsed) (plan_synthesizerPrompt parsed), logs)))"

text \<open>
  For the statements. A line starts after \<open>pre\<close> when \<open>pre\<close> is empty or ends with a
  line terminator; a line ends before \<open>post\<close> when \<open>post\<close> is empty or starts with
  one. An opening marker is the fence, then \<open>json\<close> or nothing, then white space; a
  closing marker is a line feed or nothing, then the fence, then white space.
\<close>

definition line_start :: "bool \<Rightarrow> string \<Rightarrow> bool" where
  "line_start bol pre = (if pre = [] then bol else is_lineTerminator (last pre))"

definition at_line_start :: "string \<Rightarrow> bool" where
  "at_line_start pre \<longleftrightarrow> pre = [] \<or> is_lineTerminator (last pre)"

definition at_line_end :: "string \<Rightarrow> bool" where
  "at_line_end post \<longleftrightarrow> post = [] \<or> is_lineTerminator (hd post)"

definition is_open_marker :: "string \<Rightarrow> bool" where
  "is_open_marker m \<longleftrightarrow>
     take 3 m = fence
     \<and> (list_all is_space (drop 3 m)
        \<or> take 4 (drop 3 m) = ''json'' \<and> list_all is_space (drop 7 m))"

definition is_close_marker :: "string \<Rightarrow> bool" where
  "is_close_marker m \<longleftrightarrow>
     (take 3 m = fence \<and> list_all is_space (drop 3 m))
     \<or> (take 1 m = [CHR 0x0A] \<and> take 3 (drop 1 m) = fence \<and> list_all is_space (drop 4 m))"

text \<open>
  An opening marker stands at position \<open>k\<close> of \<open>s\<close> when a line starts there and the
  fence follows. A closing marker of length \<open>n\<close> stands at position \<open>k\<close> when the \<open>n\<close>
  characters from \<open>k\<close> on are a closing marker and a line ends after them.
\<close>

definition opens_at :: "string \<Rightarrow> nat \<Rightarrow> bool" where
  "opens_at s k \<longleftrightarrow> at_line_start (take k s) \<and> take 3 (drop k s) = fence"

definition closes_with :: "string \<Rightarrow> nat \<Rightarrow> nat \<Rightarrow> bool" where
  "closes_with s k n \<longleftrightarrow>
     k + n \<le> length s \<and> is_close_marker (take n (drop k s)) \<and> at_line_end (drop (k + n) s)"

text \<open>
  The reading of the spec's words: one optional fenced-code marker that leads the
  response and one that trails it are stripped, then the text is trimmed.
  \<open>strip_leading_marker\<close> removes an opening marker at the very start only;
  \<open>strip_trailing_marker\<close> removes a closing marker that reaches the very end only.
\<close>

definition strip_leading_marker :: "string \<Rightarrow> string" where
  "strip_leading_marker raw =
     (case match_leading True raw of Some n \<Rightarrow> drop n raw | None \<Rightarrow> raw)"

definition closes_at_end :: "bool \<Rightarrow> string \<Rightarrow> nat option" where
  "closes_at_end bol rest = (if is_close_marker rest then Some (length rest) else None)"

definition strip_trailing_marker :: "string \<Rightarrow> string" where
  "strip_trailing_marker s = replace_first closes_at_end True s"

definition cleaned_leading_trailing_only :: "string \<Rightarrow> string" where
  "cleaned_leading_trailing_only raw = trim (strip_trailing_marker (strip_leading_marker raw))"

text \<open>
  The shape of a response that validates: \<open>node_shape x n\<close> says that the JSON value
  \<open>x\<close> is an object with a non-empty string \<open>id\<close> and a non-empty string \<open>task\<close>,
  which the parsed node \<open>n\<close> carries, and that \<open>n\<close> has the empty \<open>dependsOn\<close> when
  the object has none and no \<open>assignTo\<close> when the object has none.
\<close>

definition node_shape :: "json \<Rightarrow> PlannerNode \<Rightarrow> bool" where
  "node_shape x n =
     (case x of
        JObject kvs \<Rightarrow>
          map_of kvs ''id'' = Some (JString (plan_id n)) \<and> plan_id n \<noteq> []
          \<and> map_of kvs ''task'' = Some (JString (plan_task n)) \<and> plan_task n \<noteq> []
          \<and> (if map_of kvs ''dependsOn'' = None then plan_dependsOn n = [] else True)
          \<and> (if map_of kvs ''assignTo'' = None then plan_assignTo n = None
              else map_of kvs ''assignTo'' = map_option JString (plan_assignTo n))
      | _ \<Rightarrow> False)"

definition response_shape :: "json \<Rightarrow> PlannerLlmResponse \<Rightarrow> bool" where
  "response_shape j v =
     (case j of
        JObject kvs \<Rightarrow>
          (case map_of kvs ''nodes'' of
             Some (JArray xs) \<Rightarrow> xs \<noteq> [] \<and> list_all2 node_shape xs (plan_nodes v)
           | _ \<Rightarrow> False)
      | _ \<Rightarrow> False)"


subsection \<open>Concrete inputs for the planner\<close>

text \<open>
  A response with a fence on a line of its own inside a JSON array, a response in a
  fenced block, a response with a fence at the end of its only line, and a stand-in for
  \<open>JSON.parse\<close> that knows three JSON texts and rejects every other text.
\<close>

definition fence_inside :: string where
  "fence_inside = ''[1,'' @ [CHR 0x0A] @ fence @ [CHR 0x0A] @ ''2]''"

definition one_node_text :: string where
  "one_node_text =
     ''{'' @ [CHR 0x22] @ ''nodes'' @ [CHR 0x22] @ '':[{'' @ [CHR 0x22] @ ''id'' @ [CHR 0x22]
       @ '':'' @ [CHR 0x22] @ ''a'' @ [CHR 0x22] @ '','' @ [CHR 0x22] @ ''task'' @ [CHR 0x22]
       @ '':'' @ [CHR 0x22] @ ''t'' @ [CHR 0x22] @ ''}]}''"

definition one_node :: json where
  "one_node = JObject [(''nodes'', JArray [JObject [(''id'', JString ''a''), (''task'', JString ''t'')]])]"

definition fenced_response :: string where
  "fenced_response = fence @ ''json'' @ [CHR 0x0A] @ one_node_text @ [CHR 0x0A] @ fence"

definition closed_only :: string where
  "closed_only = ''{}'' @ fence"

definition toy_parse :: "string \<Rightarrow> string + json" where
  "toy_parse s =
     (if s = ''{}'' then Inr (JObject [])
      else if s = one_node_text then Inr one_node
      else if s = ''[1,'' @ [CHR 0x0A] @ ''2]'' then Inr (JArray [JNumber 1, JNumber 2])
      else Inl ''SyntaxError'')"


section \<open>The retry helper: proofs\<close>

lemma schedule_from_last: "schedule_from b m a a = [Attempt a]"
  by (simp add: schedule_from_def)

lemma schedule_from_step:
  "a < n \<Longrightarrow> schedule_from b m a n = Attempt a # Delay (backoff b m a) # schedule_from b m (a + 1) n"
  by (simp add: schedule_from_def upto_rec1 [of a "n - 1"])

lemma withRetry_loop_fail:
  "a \<le> N \<Longrightarrow> \<forall>k < nat (N - a + 1). isl (fst (outcome_at fn s k)) \<Longrightarrow>
   withRetry_loop fn N b m a le s =
     (Inl (Some (projl (fst (outcome_at fn s (nat (N - a)))))),
      snd (outcome_at fn s (nat (N - a))), schedule_from b m a N)"
proof (induction fn N b m a le s rule: withRetry_loop.induct)
  case (1 fn maxA baseD maxD attempt lastError s)
  obtain r s' where fs: "fn s = (r, s')" by (cases "fn s")
  have "0 < nat (maxA - attempt + 1)" using "1.prems"(1) by simp
  with "1.prems"(2) have "isl (fst (outcome_at fn s 0))" by blast
  with fs obtain err where r: "r = Inl err" by (cases r) auto
  show ?case
  proof (cases "attempt = maxA")
    case True
    then show ?thesis
      using fs r by (subst withRetry_loop.simps) (simp add: schedule_from_last)
  next
    case False
    with "1.prems"(1) have lt: "attempt < maxA" by simp
    have le': "attempt + 1 \<le> maxA" using lt by simp
    have nat_eq: "nat (maxA - attempt) = Suc (nat (maxA - (attempt + 1)))" using lt by simp
    have all': "\<forall>k<nat (maxA - (attempt + 1) + 1). isl (fst (outcome_at fn s' k))"
    proof (intro allI impI)
      fix k assume "k < nat (maxA - (attempt + 1) + 1)"
      then have "Suc k < nat (maxA - attempt + 1)" using lt by simp
      with "1.prems"(2) have "isl (fst (outcome_at fn s (Suc k)))" by blast
      then show "isl (fst (outcome_at fn s' k))" using fs by simp
    qed
    have IH: "withRetry_loop fn maxA baseD maxD (attempt + 1) (Some err) s' =
       (Inl (Some (projl (fst (outcome_at fn s' (nat (maxA - (attempt + 1))))))),
        snd (outcome_at fn s' (nat (maxA - (attempt + 1)))), schedule_from baseD maxD (attempt + 1) maxA)"
      using "1.IH" [OF "1.prems"(1) fs [symmetric] r False refl le' all'] .
    show ?thesis
      using fs r False lt IH
      by (simp add: withRetry_loop.simps [of fn maxA baseD maxD attempt] nat_eq
          schedule_from_step backoff_def)
  qed
qed

lemma withRetry_loop_success:
  "a \<le> N \<Longrightarrow> k < nat (N - a + 1) \<Longrightarrow> \<forall>j<k. isl (fst (outcome_at fn s j)) \<Longrightarrow>
   fst (outcome_at fn s k) = Inr v \<Longrightarrow>
   withRetry_loop fn N b m a le s =
     (Inr v, snd (outcome_at fn s k), schedule_from b m a (a + int k))"
proof (induction fn N b m a le s arbitrary: k rule: withRetry_loop.induct)
  case (1 fn maxA baseD maxD attempt lastError s)
  obtain r s' where fs: "fn s = (r, s')" by (cases "fn s")
  show ?case
  proof (cases k)
    case 0
    with "1.prems"(4) fs have "r = Inr v" by simp
    then show ?thesis
      using fs 0 "1.prems"(1)
      by (simp add: withRetry_loop.simps [of fn maxA baseD maxD attempt] schedule_from_last)
  next
    case (Suc k')
    from "1.prems"(3) Suc have "isl (fst (outcome_at fn s 0))" by blast
    with fs obtain err where r: "r = Inl err" by (cases r) auto
    from "1.prems"(2) Suc have lt: "attempt < maxA" by simp
    then have ne: "attempt \<noteq> maxA" by simp
    have le': "attempt + 1 \<le> maxA" using lt by simp
    have k': "k' < nat (maxA - (attempt + 1) + 1)" using "1.prems"(2) Suc by simp
    have all': "\<forall>j<k'. isl (fst (outcome_at fn s' j))"
    proof (intro allI impI)
      fix j assume "j < k'"
      then have "Suc j < k" using Suc by simp
      with "1.prems"(3) have "isl (fst (outcome_at fn s (Suc j)))" by blast
      then show "isl (fst (outcome_at fn s' j))" using fs by simp
    qed
    have v': "fst (outcome_at fn s' k') = Inr v" using "1.prems"(4) Suc fs by simp
    have IH: "withRetry_loop fn maxA baseD maxD (attempt + 1) (Some err) s' =
       (Inr v, snd (outcome_at fn s' k'), schedule_from baseD maxD (attempt + 1) (attempt + 1 + int k'))"
      using "1.IH" [OF "1.prems"(1) fs [symmetric] r ne refl le' k' all' v'] .
    have idx: "attempt + 1 + int k' = attempt + int k" using Suc by simp
    have lt2: "attempt < attempt + int k" using Suc by simp
    have "withRetry_loop fn maxA baseD maxD attempt lastError s =
        (Inr v, snd (outcome_at fn s' k'),
         Attempt attempt # Delay (backoff baseD maxD attempt) #
           schedule_from baseD maxD (attempt + 1) (attempt + 1 + int k'))"
      using fs r ne lt IH
      by (simp add: withRetry_loop.simps [of fn maxA baseD maxD attempt] backoff_def)
    also have "Attempt attempt # Delay (backoff baseD maxD attempt) #
           schedule_from baseD maxD (attempt + 1) (attempt + 1 + int k') =
           schedule_from baseD maxD attempt (attempt + int k)"
      unfolding idx using schedule_from_step [OF lt2, of baseD maxD] by simp
    finally show ?thesis using Suc fs by simp
  qed
qed

lemma withRetry_loop_none:
  "N < a \<Longrightarrow> withRetry_loop fn N b m a le s = (Inl le, s, [])"
  by (simp add: withRetry_loop.simps [of fn N b m a])


lemma withRetry_as_loop:
  "withRetry cfg fn opts s =
     withRetry_loop fn (effective_maxAttempts cfg opts) (effective_baseDelayMs cfg opts)
       (effective_maxDelayMs cfg opts) 1 None s"
  by (simp add: withRetry_def effective_maxAttempts_def effective_baseDelayMs_def
      effective_maxDelayMs_def)

lemma attempts_schedule_from: "a \<le> n \<Longrightarrow> attempts (schedule_from b m a n) = [a..n]"
proof (induction "nat (n - a)" arbitrary: a)
  case 0
  then have "a = n" by simp
  then show ?case by (simp add: schedule_from_last attempts_def)
next
  case (Suc d)
  then have lt: "a < n" by simp
  have "attempts (schedule_from b m (a + 1) n) = [a + 1..n]"
    using Suc.hyps(1) [of "a + 1"] Suc.hyps(2) lt by simp
  then show ?case
    using lt by (simp add: schedule_from_step attempts_def upto_rec1 [of a n])
qed

lemma delays_schedule_from:
  "a \<le> n \<Longrightarrow> delays (schedule_from b m a n) = map (backoff b m) [a..n - 1]"
proof (induction "nat (n - a)" arbitrary: a)
  case 0
  then have "a = n" by simp
  then show ?case by (simp add: schedule_from_last delays_def)
next
  case (Suc d)
  then have lt: "a < n" by simp
  have "delays (schedule_from b m (a + 1) n) = map (backoff b m) [a + 1..n - 1]"
    using Suc.hyps(1) [of "a + 1"] Suc.hyps(2) lt by simp
  then show ?case
    using lt by (simp add: schedule_from_step delays_def upto_rec1 [of a "n - 1"])
qed

lemma withRetry_loop_first_success:
  assumes M: "1 \<le> M"
    and "k < nat M" "\<forall>j<k. isl (fst (outcome_at fn s j))" "fst (outcome_at fn s k) = Inr v"
  shows "withRetry_loop fn M b m 1 None s =
      (Inr v, snd (outcome_at fn s k), schedule_from b m 1 (int k + 1))"
  using withRetry_loop_success [OF M _ assms(3) assms(4), of b m None] assms(2)
  by (simp add: add.commute)

lemma withRetry_loop_all_fail:
  assumes M: "1 \<le> M" and "\<forall>j<nat M. isl (fst (outcome_at fn s j))"
  shows "withRetry_loop fn M b m 1 None s =
      (Inl (Some (projl (fst (outcome_at fn s (nat M - 1))))),
       snd (outcome_at fn s (nat M - 1)), schedule_from b m 1 M)"
proof -
  have "nat (M - 1) = nat M - 1" using M by simp
  then show ?thesis
    using withRetry_loop_fail [OF M, of fn s b m None] assms(2) by simp
qed

lemma withRetry_loop_schedule:
  assumes M: "1 \<le> M"
  shows "\<exists>n. 1 \<le> n \<and> n \<le> M \<and> snd (snd (withRetry_loop fn M b m 1 None s)) = schedule_from b m 1 n"
proof (cases "\<forall>j<nat M. isl (fst (outcome_at fn s j))")
  case True
  then show ?thesis using withRetry_loop_all_fail [OF M, of fn s b m] M by auto
next
  case False
  then have ex: "\<exists>j. j < nat M \<and> \<not> isl (fst (outcome_at fn s j))" by blast
  define k where "k = (LEAST j. j < nat M \<and> \<not> isl (fst (outcome_at fn s j)))"
  have k: "k < nat M \<and> \<not> isl (fst (outcome_at fn s k))"
    unfolding k_def using ex by (rule LeastI_ex)
  have least: "\<forall>j<k. isl (fst (outcome_at fn s j))"
  proof (intro allI impI)
    fix j assume jk: "j < k"
    show "isl (fst (outcome_at fn s j))"
    proof (rule ccontr)
      assume "\<not> isl (fst (outcome_at fn s j))"
      then have "j < nat M \<and> \<not> isl (fst (outcome_at fn s j))" using jk k by simp
      then have "k \<le> j" unfolding k_def by (rule Least_le)
      with jk show False by simp
    qed
  qed
  from k obtain v where v: "fst (outcome_at fn s k) = Inr v"
    by (cases "fst (outcome_at fn s k)") auto
  have "snd (snd (withRetry_loop fn M b m 1 None s)) = schedule_from b m 1 (int k + 1)"
    using withRetry_loop_first_success [OF M _ least v, of b m] k by simp
  moreover have "int k + 1 \<le> M" using k by linarith
  ultimately show ?thesis by (intro exI [of _ "int k + 1"]) simp
qed

text \<open>The number of calls of \<open>fn\<close> in a run of \<open>withRetry\<close>, for its callers.\<close>

lemma withRetry_attempts_bounds:
  assumes "1 \<le> effective_maxAttempts cfg opts"
  shows "1 \<le> length (attempts (snd (snd (withRetry cfg fn opts s))))
       \<and> int (length (attempts (snd (snd (withRetry cfg fn opts s))))) \<le> effective_maxAttempts cfg opts
       \<and> length (delays (snd (snd (withRetry cfg fn opts s)))) + 1
           = length (attempts (snd (snd (withRetry cfg fn opts s))))"
proof -
  obtain n where n: "1 \<le> n" "n \<le> effective_maxAttempts cfg opts"
    "snd (snd (withRetry cfg fn opts s)) =
       schedule_from (effective_baseDelayMs cfg opts) (effective_maxDelayMs cfg opts) 1 n"
    using withRetry_loop_schedule [OF assms, where fn = fn and s = s
        and b = "effective_baseDelayMs cfg opts" and m = "effective_maxDelayMs cfg opts"]
    unfolding withRetry_as_loop by blast
  have "length (attempts (schedule_from (effective_baseDelayMs cfg opts)
            (effective_maxDelayMs cfg opts) 1 n)) = nat n"
    using n(1) by (simp add: attempts_schedule_from)
  moreover have "length (delays (schedule_from (effective_baseDelayMs cfg opts)
            (effective_maxDelayMs cfg opts) 1 n)) = nat (n - 1)"
    using n(1) by (simp add: delays_schedule_from)
  moreover have "1 \<le> nat n" "int (nat n) \<le> effective_maxAttempts cfg opts" "nat (n - 1) + 1 = nat n"
    using n(1) n(2) by linarith+
  ultimately show ?thesis by (simp add: n(3))
qed

text \<open>
  Claim C2. For every operation \<open>fn\<close> and every effective \<open>maxAttempts = N \<ge> 1\<close>,
  \<open>withRetry\<close> calls \<open>fn\<close> at most \<open>N\<close> times. Its run is attempt 1, the delay
  \<open>min (baseDelayMs * 2^(k-1)) maxDelayMs\<close> after each failed attempt \<open>k\<close> that is
  followed by another one, and so on up to some attempt \<open>n \<le> N\<close>. When the first
  success is the (k+1)-th call, with \<open>k < N\<close>, that value is returned at once: the run
  stops with attempt \<open>k + 1\<close>. When all \<open>N\<close> calls fail it rejects with the error of
  the \<open>N\<close>-th call.
\<close>

theorem withRetry_contract:
  assumes N: "1 \<le> effective_maxAttempts cfg opts"
  shows "case withRetry cfg fn opts s of (r, s', evs) \<Rightarrow>
     (let N = effective_maxAttempts cfg opts;
          b = effective_baseDelayMs cfg opts;
          m = effective_maxDelayMs cfg opts
      in length (attempts evs) \<le> nat N
       \<and> (\<exists>n. 1 \<le> n \<and> n \<le> N \<and> evs = schedule_from b m 1 n
              \<and> attempts evs = [1..n] \<and> delays evs = map (backoff b m) [1..n - 1])
       \<and> (\<forall>k v. k < nat N \<and> (\<forall>j<k. isl (fst (outcome_at fn s j)))
                \<and> fst (outcome_at fn s k) = Inr v
              \<longrightarrow> r = Inr v \<and> s' = snd (outcome_at fn s k)
                \<and> evs = schedule_from b m 1 (int k + 1))
       \<and> ((\<forall>j<nat N. isl (fst (outcome_at fn s j)))
              \<longrightarrow> r = Inl (Some (projl (fst (outcome_at fn s (nat N - 1)))))
                \<and> evs = schedule_from b m 1 N))"
proof -
  define M where "M = effective_maxAttempts cfg opts"
  define b where "b = effective_baseDelayMs cfg opts"
  define m where "m = effective_maxDelayMs cfg opts"
  have M: "1 \<le> M" using N by (simp add: M_def)
  have loop: "withRetry cfg fn opts s = withRetry_loop fn M b m 1 None s"
    by (simp add: withRetry_as_loop M_def b_def m_def)
  have succ: "withRetry_loop fn M b m 1 None s =
      (Inr v, snd (outcome_at fn s k), schedule_from b m 1 (int k + 1))"
    if "k < nat M" "\<forall>j<k. isl (fst (outcome_at fn s j))" "fst (outcome_at fn s k) = Inr v"
    for k v
    using withRetry_loop_first_success [OF M that] .
  have fail: "withRetry_loop fn M b m 1 None s =
      (Inl (Some (projl (fst (outcome_at fn s (nat M - 1))))),
       snd (outcome_at fn s (nat M - 1)), schedule_from b m 1 M)"
    if "\<forall>j<nat M. isl (fst (outcome_at fn s j))"
    using withRetry_loop_all_fail [OF M that] .
  have sched: "\<exists>n. 1 \<le> n \<and> n \<le> M \<and> snd (snd (withRetry_loop fn M b m 1 None s)) = schedule_from b m 1 n"
    using withRetry_loop_schedule [OF M] .
  then obtain n where n: "1 \<le> n" "n \<le> M"
    "snd (snd (withRetry_loop fn M b m 1 None s)) = schedule_from b m 1 n" by blast
  have att: "attempts (schedule_from b m 1 n) = [1..n]" using n(1) by (rule attempts_schedule_from)
  have del: "delays (schedule_from b m 1 n) = map (backoff b m) [1..n - 1]"
    using n(1) by (rule delays_schedule_from)
  have len: "length (attempts (schedule_from b m 1 n)) \<le> nat M"
    using n(1) n(2) by (simp add: att)
  obtain r s' evs where res: "withRetry_loop fn M b m 1 None s = (r, s', evs)"
    by (cases "withRetry_loop fn M b m 1 None s")
  have evs: "evs = schedule_from b m 1 n" using n(3) res by simp
  have c1: "length (attempts evs) \<le> nat M" using len evs by simp
  have c2: "\<exists>n. 1 \<le> n \<and> n \<le> M \<and> evs = schedule_from b m 1 n
              \<and> attempts evs = [1..n] \<and> delays evs = map (backoff b m) [1..n - 1]"
    using n(1) n(2) evs att del by blast
  have c3: "\<forall>k v. k < nat M \<and> (\<forall>j<k. isl (fst (outcome_at fn s j)))
                \<and> fst (outcome_at fn s k) = Inr v
              \<longrightarrow> r = Inr v \<and> s' = snd (outcome_at fn s k)
                \<and> evs = schedule_from b m 1 (int k + 1)"
    using succ res by auto
  have c4: "(\<forall>j<nat M. isl (fst (outcome_at fn s j)))
              \<longrightarrow> r = Inl (Some (projl (fst (outcome_at fn s (nat M - 1)))))
                \<and> evs = schedule_from b m 1 M"
    using fail res by auto
  show ?thesis
    unfolding loop res Let_def M_def [symmetric] b_def [symmetric] m_def [symmetric]
    by (simp only: prod.case) (intro conjI c1 c2 c3 c4)
qed

theorem withRetry_contract_witness:
  "1 \<le> effective_maxAttempts retry_cfg0 None
   \<and> withRetry retry_cfg0 flaky None 0 =
       (Inr 20, 3, [Attempt 1, Delay 100, Attempt 2, Delay 150, Attempt 3])"
  using withRetry_contract [of retry_cfg0 None flaky 0]
  by (simp add: withRetry_as_loop effective_maxAttempts_def effective_baseDelayMs_def
      effective_maxDelayMs_def retry_cfg0_def nullish_def optchain_def flaky_def
      withRetry_loop.simps)

text \<open>
  Claim C10. With an effective \<open>maxAttempts\<close> of 0, or any integer below 1, the loop
  body never runs: \<open>fn\<close> is not called (no event, the state is unchanged) and
  \<open>withRetry\<close> rejects with \<open>lastError\<close> as initialised, the value undefined
  (\<open>None\<close>).
\<close>

theorem withRetry_no_attempts:
  assumes "effective_maxAttempts cfg opts < 1"
  shows "withRetry cfg fn opts s = (Inl None, s, [])"
  using assms by (simp add: withRetry_as_loop withRetry_loop_none)

theorem withRetry_no_attempts_witness:
  "effective_maxAttempts retry_cfg0 (Some \<lparr>maxAttempts = Some 0, baseDelayMs = None, maxDelayMs = None\<rparr>) < 1
   \<and> withRetry retry_cfg0 flaky (Some \<lparr>maxAttempts = Some 0, baseDelayMs = None, maxDelayMs = None\<rparr>) 7
       = (Inl None, 7, [])"
  using withRetry_no_attempts [of retry_cfg0 "Some \<lparr>maxAttempts = Some 0, baseDelayMs = None, maxDelayMs = None\<rparr>" flaky 7]
  by (simp add: effective_maxAttempts_def nullish_def optchain_def)

section \<open>The executor: how each step changes the state\<close>

lemma emit_fields [simp]:
  "st_graph (emit e st) = st_graph st"
  "st_nodeResults (emit e st) = st_nodeResults st"
  "st_cache (emit e st) = st_cache st"
  "st_world (emit e st) = st_world st"
  "st_trace (emit e st) = st_trace st @ [e]"
  "st_history (emit e st) = st_history st"
  by (simp_all add: emit_def)

lemma callback_fields [simp]:
  "st_graph (callback f st) = st_graph st"
  "st_nodeResults (callback f st) = st_nodeResults st"
  "st_cache (callback f st) = st_cache st"
  "st_trace (callback f st) = st_trace st"
  "st_history (callback f st) = st_history st"
  by (simp_all add: callback_def split: option.splits)

lemma setStatus_fields [simp]:
  "nodes (st_graph (setStatus i s st)) = (nodes (st_graph st))[i := (nodes (st_graph st) ! i)\<lparr>status := s\<rparr>]"
  "st_nodeResults (setStatus i s st) = st_nodeResults st"
  "st_cache (setStatus i s st) = st_cache st"
  "st_world (setStatus i s st) = st_world st"
  "st_trace (setStatus i s st) = st_trace st"
  "st_history (setStatus i s st) =
     st_history st @ [map status ((nodes (st_graph st))[i := (nodes (st_graph st) ! i)\<lparr>status := s\<rparr>])]"
  by (simp_all add: setStatus_def Let_def)

lemma setResult_fields [simp]:
  "nodes (st_graph (setResult i r st)) = (nodes (st_graph st))[i := (nodes (st_graph st) ! i)\<lparr>result := Some r\<rparr>]"
  "st_nodeResults (setResult i r st) = st_nodeResults st"
  "st_cache (setResult i r st) = st_cache st"
  "st_world (setResult i r st) = st_world st"
  "st_trace (setResult i r st) = st_trace st"
  "st_history (setResult i r st) = st_history st"
  by (simp_all add: setResult_def Let_def)

lemma recordResult_fields [simp]:
  "st_graph (recordResult k r st) = st_graph st"
  "st_nodeResults (recordResult k r st) = (st_nodeResults st)(k \<mapsto> r)"
  "st_cache (recordResult k r st) = st_cache st"
  "st_world (recordResult k r st) = st_world st"
  "st_trace (recordResult k r st) = st_trace st"
  "st_history (recordResult k r st) = st_history st"
  by (simp_all add: recordResult_def)

lemma call_onNodeStart_fields [simp]:
  "st_graph (call_onNodeStart opts k st) = st_graph st"
  "st_nodeResults (call_onNodeStart opts k st) = st_nodeResults st"
  "st_cache (call_onNodeStart opts k st) = st_cache st"
  "st_trace (call_onNodeStart opts k st) = st_trace st @ [NodeStart k]"
  "st_history (call_onNodeStart opts k st) = st_history st"
  by (simp_all add: call_onNodeStart_def)

lemma call_onNodeEnd_fields [simp]:
  "st_graph (call_onNodeEnd opts k r st) = st_graph st"
  "st_nodeResults (call_onNodeEnd opts k r st) = st_nodeResults st"
  "st_cache (call_onNodeEnd opts k r st) = st_cache st"
  "st_trace (call_onNodeEnd opts k r st) = st_trace st @ [NodeEnd k r]"
  "st_history (call_onNodeEnd opts k r st) = st_history st"
  by (simp_all add: call_onNodeEnd_def)

lemma call_skipDownstream_fields [simp]:
  "st_graph (call_skipDownstream k st) = skipDownstream (st_graph st) k"
  "st_nodeResults (call_skipDownstream k st) = st_nodeResults st"
  "st_cache (call_skipDownstream k st) = st_cache st"
  "st_world (call_skipDownstream k st) = st_world st"
  "st_trace (call_skipDownstream k st) = st_trace st @ [SkipDownstream k]"
  "st_history (call_skipDownstream k st) =
     st_history st @ [map status (nodes (skipDownstream (st_graph st) k))]"
  by (simp_all add: call_skipDownstream_def Let_def)

lemma skip_pending_fields [simp]:
  "nodes (st_graph (skip_pending st)) =
     map (\<lambda>n. if status n = Pending then n\<lparr>status := Skipped\<rparr> else n) (nodes (st_graph st))"
  "st_nodeResults (skip_pending st) = st_nodeResults st"
  "st_cache (skip_pending st) = st_cache st"
  "st_world (skip_pending st) = st_world st"
  "st_trace (skip_pending st) = st_trace st"
  "st_history (skip_pending st) =
     st_history st @ [map status (map (\<lambda>n. if status n = Pending then n\<lparr>status := Skipped\<rparr> else n) (nodes (st_graph st)))]"
  by (simp_all add: skip_pending_def Let_def)

lemma nodes_skipDownstream:
  "nodes (skipDownstream g k) =
     map (\<lambda>n. if status n = Pending \<and> dependsOnClosure (nodes g) n k
              then n\<lparr>status := Skipped\<rparr> else n) (nodes g)"
  by (simp add: skipDownstream_def)

text \<open>The first part of \<open>executeNode\<close>.\<close>

lemma executeNode_sync_fields:
  "nodes (st_graph (snd (executeNode_sync env opts i st))) =
     (nodes (st_graph st))[i := (nodes (st_graph st) ! i)\<lparr>status := Running\<rparr>]"
  "st_nodeResults (snd (executeNode_sync env opts i st)) = st_nodeResults st"
  "st_cache (snd (executeNode_sync env opts i st)) = st_cache st"
  "st_trace (snd (executeNode_sync env opts i st)) =
     st_trace st @ [NodeStart (node_id ((nodes (st_graph st))[i := (nodes (st_graph st) ! i)\<lparr>status := Running\<rparr>] ! i))]"
  "st_history (snd (executeNode_sync env opts i st)) =
     st_history st @ [map status ((nodes (st_graph st))[i := (nodes (st_graph st) ! i)\<lparr>status := Running\<rparr>])]"
  by (simp_all add: executeNode_sync_def Let_def split: option.splits)

lemma node_id_marked:
  "node_id (ns[i := (ns ! i)\<lparr>status := s\<rparr>] ! i) = node_id (ns ! i)"
  by (cases "i < length ns") (simp_all add: list_update_beyond)

text \<open>The second part changes neither the graph nor \<open>nodeResults\<close> nor the history.\<close>

lemma executeNode_async_fields:
  "st_graph (snd (executeNode_async env i a key st)) = st_graph st"
  "st_nodeResults (snd (executeNode_async env i a key st)) = st_nodeResults st"
  "st_history (snd (executeNode_async env i a key st)) = st_history st"
  by (simp_all add: executeNode_async_def Let_def split: prod.splits sum.splits TaskResult.splits)

lemma resume_fields:
  "st_graph (snd (resume env i c st)) = st_graph st"
  "st_nodeResults (snd (resume env i c st)) = st_nodeResults st"
  "st_history (snd (resume env i c st)) = st_history st"
  by (simp_all add: resume_def executeNode_async_fields split: Continuation.splits)

lemma resolveAgent_status [simp]: "resolveAgent env (n\<lparr>status := s\<rparr>) = resolveAgent env n"
  by (simp add: resolveAgent_def)

lemma agent_event_not_CacheSet [simp]:
  "CacheSet k v \<notin> set (map (agent_event a x) evs)"
  by (auto simp add: agent_event_def split: retry_event.splits)

text \<open>What the second part of \<open>executeNode\<close> adds to the trace, and what it does to the cache.\<close>

lemma executeNode_async_effect:
  assumes "executeNode_async env i a key st = (r, st')"
  shows "\<exists>evs.
     st_trace st' =
       st_trace st @ (if rateLimit_enabled (getConfig env) then [Acquire (name a)] else [])
         @ map (agent_event (name a) (node_id (nodes (st_graph st) ! i))) evs
         @ (case r of Fulfilled (Ok out) \<Rightarrow>
               if cache_enabled (getConfig env) then [CacheSet key out] else []
            | _ \<Rightarrow> [])
     \<and> invokeAgent (getConfig env) a (nodes (st_graph st) ! i) (st_world st) = (case r of Fulfilled v \<Rightarrow> Inr v | Rejected e \<Rightarrow> Inl e, st_world st', evs)
     \<and> st_cache st' =
         (case r of Fulfilled (Ok out) \<Rightarrow>
            if cache_enabled (getConfig env) then (st_cache st)(key \<mapsto> out) else st_cache st
          | _ \<Rightarrow> st_cache st)"
  using assms
  by (auto simp add: executeNode_async_def Let_def split: prod.splits sum.splits TaskResult.splits if_splits)

lemma executeNode_sync_hit:
  assumes "cache_enabled (getConfig env)"
    and "resolveAgent env (nodes (st_graph st) ! i) = Some agent"
    and "st_cache st (taskKey env (task (nodes (st_graph st) ! i)) (name agent)) = Some v"
  shows "executeNode_sync env opts i st =
     (Returned (Ok v), call_onNodeStart opts (node_id (nodes (st_graph st) ! i)) (setStatus i Running st))"
proof (cases "i < length (nodes (st_graph st))")
  case True
  then show ?thesis using assms by (simp add: executeNode_sync_def Let_def)
next
  case False
  then show ?thesis using assms by (simp add: executeNode_sync_def Let_def list_update_beyond)
qed

lemma executeNode_sync_miss:
  assumes "resolveAgent env (nodes (st_graph st) ! i) = Some agent"
    and "cache_enabled (getConfig env) \<longrightarrow>
           st_cache st (taskKey env (task (nodes (st_graph st) ! i)) (name agent)) = None"
  shows "executeNode_sync env opts i st =
     (Suspended agent (taskKey env (task (nodes (st_graph st) ! i)) (name agent)),
      call_onNodeStart opts (node_id (nodes (st_graph st) ! i)) (setStatus i Running st))"
proof (cases "i < length (nodes (st_graph st))")
  case True
  then show ?thesis using assms by (simp add: executeNode_sync_def Let_def)
next
  case False
  then show ?thesis using assms by (simp add: executeNode_sync_def Let_def list_update_beyond)
qed

lemma executeNode_sync_cases:
  "(\<exists>r. fst (executeNode_sync env opts i st) = Returned r)
   \<or> (\<exists>agent. resolveAgent env (nodes (st_graph st) ! i) = Some agent
        \<and> fst (executeNode_sync env opts i st) =
            Suspended agent (taskKey env (task (nodes (st_graph st) ! i)) (name agent)))"
proof (cases "i < length (nodes (st_graph st))")
  case True
  then show ?thesis by (auto simp add: executeNode_sync_def Let_def split: option.splits)
next
  case False
  then show ?thesis
    by (auto simp add: executeNode_sync_def Let_def list_update_beyond split: option.splits)
qed

lemma executeNode_sync_snd:
  "snd (executeNode_sync env opts i st) =
     call_onNodeStart opts (node_id (nodes (st_graph st) ! i)) (setStatus i Running st)"
proof (cases "i < length (nodes (st_graph st))")
  case True
  then show ?thesis by (simp add: executeNode_sync_def Let_def split: option.splits)
next
  case False
  then show ?thesis
    by (simp add: executeNode_sync_def Let_def list_update_beyond split: option.splits)
qed

lemma agent_calls_of_retry_events:
  "length (filter is_AgentExecute (map (agent_event a k) evs)) = length (attempts evs)"
  by (induction evs)
    (auto simp add: agent_event_def is_AgentExecute_def attempts_def split: retry_event.splits)

lemma retry_delays_of_retry_events:
  "length (filter is_RetryDelay (map (agent_event a k) evs)) = length (delays evs)"
  by (induction evs)
    (auto simp add: agent_event_def is_RetryDelay_def delays_def split: retry_event.splits)

lemma invokeAgent_once:
  assumes "nullish (optchain (config node) retries) 0 \<le> 0"
  shows "invokeAgent cfg agent node w =
     (case fst (execute agent node w) of Inl e \<Rightarrow> Inl (Some e) | Inr v \<Rightarrow> Inr v,
      snd (execute agent node w), [Attempt 1])"
  using assms by (auto simp add: invokeAgent_def Let_def split: prod.splits sum.splits)

lemma invokeAgent_retry:
  assumes "0 < nullish (optchain (config node) retries) 0"
  shows "invokeAgent cfg agent node w =
     withRetry cfg (execute agent node)
       (Some \<lparr>maxAttempts = Some (nullish (optchain (config node) retries) 0 + 1),
              baseDelayMs = None, maxDelayMs = None\<rparr>) w"
  using assms by (simp add: invokeAgent_def Let_def)

section \<open>The executor: one settled node\<close>

lemma settle_node_effect:
  "nodes (st_graph (settle_node env opts i settled st)) =
     nodes_after_settle (nodes (st_graph st)) i (result_of_settled env settled)"
  "st_nodeResults (settle_node env opts i settled st) =
     (st_nodeResults st)(node_id (nodes (st_graph st) ! i) \<mapsto> result_of_settled env settled)"
  "st_cache (settle_node env opts i settled st) = st_cache st"
  "st_trace (settle_node env opts i settled st) =
     st_trace st @ NodeEnd (node_id (nodes (st_graph st) ! i)) (result_of_settled env settled)
       # (case result_of_settled env settled of
            Ok _ \<Rightarrow> [] | Error _ \<Rightarrow> [SkipDownstream (node_id (nodes (st_graph st) ! i))])"
  "st_history (settle_node env opts i settled st) =
     st_history st
       @ map status (settled_nodes (nodes (st_graph st)) i (result_of_settled env settled))
       # (case result_of_settled env settled of
            Ok _ \<Rightarrow> []
          | Error _ \<Rightarrow>
              [map status (nodes_after_settle (nodes (st_graph st)) i (result_of_settled env settled))])"
proof -
  have upd: "xs[i := f (xs[i := n] ! i)] = xs[i := f n]" for xs :: "TaskNode list" and n f
    by (cases "i < length xs") (simp_all add: list_update_beyond)
  have sk: "skip_mark xs k = (\<lambda>n. if status n = Pending \<and> dependsOnClosure xs n k
              then n\<lparr>status := Skipped\<rparr> else n)" for xs k
    by (rule ext) (simp add: skip_mark_def)
  show "nodes (st_graph (settle_node env opts i settled st)) =
     nodes_after_settle (nodes (st_graph st)) i (result_of_settled env settled)"
    by (simp add: settle_node_def Let_def result_of_settled_def final_status_def upd
        nodes_after_settle_def settled_nodes_def
        nodes_skipDownstream sk split: Settled.splits TaskResult.splits)
  show "st_nodeResults (settle_node env opts i settled st) =
     (st_nodeResults st)(node_id (nodes (st_graph st) ! i) \<mapsto> result_of_settled env settled)"
    by (simp add: settle_node_def Let_def result_of_settled_def split: Settled.splits TaskResult.splits)
  show "st_cache (settle_node env opts i settled st) = st_cache st"
    by (simp add: settle_node_def Let_def split: Settled.splits TaskResult.splits)
  show "st_trace (settle_node env opts i settled st) =
     st_trace st @ NodeEnd (node_id (nodes (st_graph st) ! i)) (result_of_settled env settled)
       # (case result_of_settled env settled of
            Ok _ \<Rightarrow> [] | Error _ \<Rightarrow> [SkipDownstream (node_id (nodes (st_graph st) ! i))])"
    by (simp add: settle_node_def Let_def result_of_settled_def split: Settled.splits TaskResult.splits)
  show "st_history (settle_node env opts i settled st) =
     st_history st
       @ map status (settled_nodes (nodes (st_graph st)) i (result_of_settled env settled))
       # (case result_of_settled env settled of
            Ok _ \<Rightarrow> []
          | Error _ \<Rightarrow>
              [map status (nodes_after_settle (nodes (st_graph st)) i (result_of_settled env settled))])"
    by (simp add: settle_node_def Let_def result_of_settled_def final_status_def upd
        nodes_after_settle_def settled_nodes_def
        nodes_skipDownstream sk split: Settled.splits TaskResult.splits)
qed


section \<open>The number of running nodes\<close>

lemma count_running_update_le: "count_running (ss[i := s]) \<le> Suc (count_running ss)"
proof (induction ss arbitrary: i)
  case Nil
  then show ?case by (simp add: count_running_def)
next
  case (Cons a ss)
  show ?case
  proof (cases i)
    case 0
    then show ?thesis by (simp add: count_running_def)
  next
    case (Suc j)
    then show ?thesis using Cons.IH [of j] by (simp add: count_running_def)
  qed
qed

lemma count_running_update_calm:
  "s \<noteq> Running \<Longrightarrow> count_running (ss[i := s]) \<le> count_running ss"
proof (induction ss arbitrary: i)
  case Nil
  then show ?case by (simp add: count_running_def)
next
  case (Cons a ss)
  show ?case
  proof (cases i)
    case 0
    then show ?thesis using Cons.prems by (simp add: count_running_def)
  next
    case (Suc j)
    then show ?thesis using Cons.IH [of j] Cons.prems by (simp add: count_running_def)
  qed
qed

lemma count_running_none: "Running \<notin> set ss \<Longrightarrow> count_running ss = 0"
  by (induction ss) (auto simp add: count_running_def)

lemma final_status_not_Running [simp]: "final_status res \<noteq> Running"
  by (simp add: final_status_def split: TaskResult.splits)

lemma status_skip_mark_Running [simp]:
  "status (skip_mark xs k n) = Running \<longleftrightarrow> status n = Running"
  by (simp add: skip_mark_def)

lemma count_running_skip_mark [simp]:
  "count_running (map (status \<circ> skip_mark xs k) ns) = count_running (map status ns)"
  by (induction ns) (simp_all add: count_running_def)

lemma statuses_settled_nodes:
  "map status (settled_nodes ns i res) = (map status ns)[i := final_status res]"
  by (simp add: settled_nodes_def map_update)

lemma count_running_settled_nodes:
  "count_running (map status (settled_nodes ns i res)) \<le> count_running (map status ns)"
  by (simp add: statuses_settled_nodes count_running_update_calm)

lemma count_running_nodes_after_settle:
  "count_running (map status (nodes_after_settle ns i res)) \<le> count_running (map status ns)"
  by (simp add: nodes_after_settle_def count_running_settled_nodes split: TaskResult.splits)

lemma length_settled_nodes [simp]: "length (settled_nodes ns i res) = length ns"
  by (simp add: settled_nodes_def)

lemma length_nodes_after_settle [simp]: "length (nodes_after_settle ns i res) = length ns"
  by (simp add: nodes_after_settle_def split: TaskResult.splits)

lemma running_at_settled_nodes:
  "running_at (settled_nodes ns i res) j \<Longrightarrow> running_at ns j \<and> j \<noteq> i"
  by (cases "j = i") (auto simp add: running_at_def settled_nodes_def)

lemma running_at_nodes_after_settle:
  "running_at (nodes_after_settle ns i res) j \<Longrightarrow> running_at ns j \<and> j \<noteq> i"
proof (cases res)
  case (Ok x)
  assume "running_at (nodes_after_settle ns i res) j"
  then show ?thesis using Ok running_at_settled_nodes [of ns i res j]
    by (simp add: nodes_after_settle_def)
next
  case (Error x)
  assume "running_at (nodes_after_settle ns i res) j"
  then have "running_at (settled_nodes ns i res) j"
    using Error by (auto simp add: nodes_after_settle_def running_at_def)
  then show ?thesis by (rule running_at_settled_nodes)
qed

lemma no_running_iff: "(\<forall>n \<in> set ns. status n \<noteq> Running) \<longleftrightarrow> (\<forall>j. \<not> running_at ns j)"
proof
  assume a: "\<forall>n \<in> set ns. status n \<noteq> Running"
  show "\<forall>j. \<not> running_at ns j"
  proof (intro allI notI)
    fix j assume "running_at ns j"
    then have "ns ! j \<in> set ns" "status (ns ! j) = Running" by (simp_all add: running_at_def)
    with a show False by blast
  qed
next
  assume b: "\<forall>j. \<not> running_at ns j"
  show "\<forall>n \<in> set ns. status n \<noteq> Running"
  proof (intro ballI notI)
    fix n assume "n \<in> set ns" "status n = Running"
    then obtain j where "j < length ns" "ns ! j = n" by (auto simp add: in_set_conv_nth)
    with \<open>status n = Running\<close> have "running_at ns j" by (simp add: running_at_def)
    with b show False by blast
  qed
qed

subsection \<open>Starting a batch\<close>

lemma length_mark_running [simp]: "length (mark_running ns batch) = length ns"
  unfolding mark_running_def by (induction batch arbitrary: ns) simp_all

lemma mark_running_Cons:
  "mark_running ns (i # batch) = mark_running (ns[i := (ns ! i)\<lparr>status := Running\<rparr>]) batch"
  by (simp add: mark_running_def)

lemma mark_running_Nil [simp]: "mark_running ns [] = ns"
  by (simp add: mark_running_def)

lemma start_all_effect:
  "start_all env opts batch st = (cs, st1) \<Longrightarrow>
     length cs = length batch
     \<and> nodes (st_graph st1) = mark_running (nodes (st_graph st)) batch
     \<and> st_nodeResults st1 = st_nodeResults st \<and> st_cache st1 = st_cache st"
proof (induction batch arbitrary: st cs st1)
  case Nil
  then show ?case by simp
next
  case (Cons i batch)
  obtain c sa where a: "executeNode_sync env opts i st = (c, sa)"
    by (cases "executeNode_sync env opts i st")
  obtain cs' sb where b: "start_all env opts batch sa = (cs', sb)"
    by (cases "start_all env opts batch sa")
  from Cons.prems a b have eq: "cs = c # cs'" "st1 = sb" by simp_all
  have sa: "sa = snd (executeNode_sync env opts i st)" using a by simp
  from Cons.IH [OF b] show ?case
    unfolding eq sa by (simp add: executeNode_sync_fields mark_running_Cons)
qed

lemma start_all_history:
  assumes "start_all env opts batch st = (cs, st1)"
    and "\<forall>h \<in> set (st_history st). count_running h \<le> M"
    and "count_running (map status (nodes (st_graph st))) + length batch \<le> M"
  shows "(\<forall>h \<in> set (st_history st1). count_running h \<le> M)
       \<and> count_running (map status (nodes (st_graph st1))) \<le> M"
  using assms
proof (induction batch arbitrary: st cs st1)
  case Nil
  then show ?case by simp
next
  case (Cons i batch)
  obtain c sa where a: "executeNode_sync env opts i st = (c, sa)"
    by (cases "executeNode_sync env opts i st")
  obtain cs' sb where b: "start_all env opts batch sa = (cs', sb)"
    by (cases "start_all env opts batch sa")
  from Cons.prems(1) a b have eq: "st1 = sb" by simp
  have sa: "sa = snd (executeNode_sync env opts i st)" using a by simp
  let ?ns = "nodes (st_graph st)"
  have cnt: "count_running (map status (?ns[i := (?ns ! i)\<lparr>status := Running\<rparr>]))
               \<le> Suc (count_running (map status ?ns))"
    by (simp add: map_update count_running_update_le)
  have h1: "\<forall>h \<in> set (st_history sa). count_running h \<le> M"
    unfolding sa using Cons.prems(2,3) cnt by (auto simp add: executeNode_sync_fields)
  have h2: "count_running (map status (nodes (st_graph sa))) + length batch \<le> M"
    unfolding sa using Cons.prems(3) cnt by (simp add: executeNode_sync_fields)
  from Cons.IH [OF b h1 h2] show ?case unfolding eq .
qed

lemma running_at_mark_running:
  "running_at (mark_running ns batch) j \<Longrightarrow> running_at ns j \<or> j \<in> set batch"
proof (induction batch arbitrary: ns)
  case Nil
  then show ?case by simp
next
  case (Cons i batch)
  from Cons.prems have "running_at (mark_running (ns[i := (ns ! i)\<lparr>status := Running\<rparr>]) batch) j"
    by (simp add: mark_running_Cons)
  from Cons.IH [OF this] show ?case
    by (cases "j = i") (auto simp add: running_at_def)
qed

subsection \<open>Waiting for a batch\<close>

lemma allSettled_effect:
  "allSettled env ics st = (rs, st2) \<Longrightarrow>
     length rs = length ics \<and> st_graph st2 = st_graph st
     \<and> st_nodeResults st2 = st_nodeResults st \<and> st_history st2 = st_history st"
proof (induction ics arbitrary: st rs st2)
  case Nil
  then show ?case by simp
next
  case (Cons ic ics)
  obtain i c where ic: "ic = (i, c)" by (cases ic)
  obtain r sa where a: "resume env i c st = (r, sa)" by (cases "resume env i c st")
  obtain rs' sb where b: "allSettled env ics sa = (rs', sb)" by (cases "allSettled env ics sa")
  from Cons.prems ic a b have eq: "rs = r # rs'" "st2 = sb" by simp_all
  have sa: "sa = snd (resume env i c st)" using a by simp
  from Cons.IH [OF b] show ?case unfolding eq sa by (simp add: resume_fields)
qed

subsection \<open>Settling a batch\<close>

lemma settle_all_running:
  assumes "\<forall>h \<in> set (st_history st). count_running h \<le> M"
    and "count_running (map status (nodes (st_graph st))) \<le> M"
  shows "(\<forall>h \<in> set (st_history (settle_all env opts pairs st)). count_running h \<le> M)
       \<and> count_running (map status (nodes (st_graph (settle_all env opts pairs st)))) \<le> M
       \<and> length (nodes (st_graph (settle_all env opts pairs st))) = length (nodes (st_graph st))
       \<and> (\<forall>j. running_at (nodes (st_graph (settle_all env opts pairs st))) j
              \<longrightarrow> running_at (nodes (st_graph st)) j \<and> j \<notin> fst ` set pairs)"
  using assms
proof (induction pairs arbitrary: st)
  case Nil
  then show ?case by simp
next
  case (Cons p pairs)
  obtain i settled where p: "p = (i, settled)" by (cases p)
  let ?ns = "nodes (st_graph st)"
  let ?res = "result_of_settled env settled"
  let ?sa = "settle_node env opts i settled st"
  have c1: "count_running (map status (settled_nodes ?ns i ?res)) \<le> M"
    using count_running_settled_nodes [of ?ns i ?res] Cons.prems(2) by simp
  have c2: "count_running (map status (nodes_after_settle ?ns i ?res)) \<le> M"
    using count_running_nodes_after_settle [of ?ns i ?res] Cons.prems(2) by simp
  have h1: "\<forall>h \<in> set (st_history ?sa). count_running h \<le> M"
    using Cons.prems(1) c1 c2 by (auto simp add: settle_node_effect split: TaskResult.splits)
  have h2: "count_running (map status (nodes (st_graph ?sa))) \<le> M"
    using c2 by (simp add: settle_node_effect)
  note IH = Cons.IH [OF h1 h2]
  have run: "running_at (nodes (st_graph ?sa)) j \<Longrightarrow> running_at ?ns j \<and> j \<noteq> i" for j
    using running_at_nodes_after_settle [of ?ns i ?res j] by (simp add: settle_node_effect)
  show ?case
    unfolding p using IH run by (auto simp add: settle_node_effect)
qed

subsection \<open>One batch, and the loop\<close>

lemma length_slice0: "0 \<le> M \<Longrightarrow> length (slice0 xs M) \<le> nat M"
  by (simp add: slice0_def)

lemma fst_set_zip: "length xs = length ys \<Longrightarrow> fst ` set (zip xs ys) = set xs"
  by (induction xs ys rule: list_induct2) auto

lemma run_batch_running:
  assumes nr: "\<forall>n \<in> set (nodes (st_graph st)). status n \<noteq> Running"
    and hist: "\<forall>h \<in> set (st_history st). count_running h \<le> M"
    and len: "length batch \<le> M"
  shows "(\<forall>n \<in> set (nodes (st_graph (run_batch env opts batch st))). status n \<noteq> Running)
       \<and> (\<forall>h \<in> set (st_history (run_batch env opts batch st)). count_running h \<le> M)"
proof -
  obtain cs st1 where s1: "start_all env opts batch st = (cs, st1)"
    by (cases "start_all env opts batch st")
  obtain rs st2 where s2: "allSettled env (zip batch cs) st1 = (rs, st2)"
    by (cases "allSettled env (zip batch cs) st1")
  have rb: "run_batch env opts batch st = settle_all env opts (zip batch rs) st2"
    by (simp add: run_batch_def s1 s2)
  have "Running \<notin> set (map status (nodes (st_graph st)))" using nr by auto
  then have c0: "count_running (map status (nodes (st_graph st))) = 0"
    by (rule count_running_none)
  from start_all_effect [OF s1] have lcs: "length cs = length batch"
    and n1: "nodes (st_graph st1) = mark_running (nodes (st_graph st)) batch" by simp_all
  from start_all_history [OF s1 hist] c0 len
  have h1: "\<forall>h \<in> set (st_history st1). count_running h \<le> M"
    and c1: "count_running (map status (nodes (st_graph st1))) \<le> M" by simp_all
  from allSettled_effect [OF s2] lcs have lrs: "length rs = length batch"
    and g2: "st_graph st2 = st_graph st1" and hi2: "st_history st2 = st_history st1" by simp_all
  have h2: "\<forall>h \<in> set (st_history st2). count_running h \<le> M" using h1 hi2 by simp
  have c2: "count_running (map status (nodes (st_graph st2))) \<le> M" using c1 g2 by simp
  note S = settle_all_running [OF h2 c2, of env opts "zip batch rs"]
  have fz: "fst ` set (zip batch rs) = set batch" using lrs by (simp add: fst_set_zip)
  have "\<not> running_at (nodes (st_graph (settle_all env opts (zip batch rs) st2))) j" for j
  proof
    assume "running_at (nodes (st_graph (settle_all env opts (zip batch rs) st2))) j"
    with S fz have r2: "running_at (nodes (st_graph st2)) j" and nb: "j \<notin> set batch" by auto
    from r2 have "running_at (mark_running (nodes (st_graph st)) batch) j" using g2 n1 by simp
    from running_at_mark_running [OF this] nb have "running_at (nodes (st_graph st)) j" by simp
    with nr show False using no_running_iff [of "nodes (st_graph st)"] by blast
  qed
  then have "\<forall>n \<in> set (nodes (st_graph (settle_all env opts (zip batch rs) st2))). status n \<noteq> Running"
    using no_running_iff by blast
  with S show ?thesis unfolding rb by blast
qed

lemma no_running_count:
  "\<forall>n \<in> set xs. status n \<noteq> Running \<Longrightarrow> count_running (map status xs) = 0"
  by (rule count_running_none) auto

lemma skip_pending_running:
  assumes nr: "\<forall>n \<in> set (nodes (st_graph st)). status n \<noteq> Running"
    and hist: "\<forall>h \<in> set (st_history st). count_running h \<le> M"
  shows "(\<forall>n \<in> set (nodes (st_graph (skip_pending st))). status n \<noteq> Running)
       \<and> (\<forall>h \<in> set (st_history (skip_pending st)). count_running h \<le> M)"
proof -
  have a: "\<forall>n \<in> set (nodes (st_graph (skip_pending st))). status n \<noteq> Running"
    using nr by auto
  then have "count_running (map status (nodes (st_graph (skip_pending st)))) = 0"
    by (rule no_running_count)
  then have "\<forall>h \<in> set (st_history (skip_pending st)). count_running h \<le> M"
    using hist by (auto simp del: skip_pending_fields(1) simp add: skip_pending_fields(1) [symmetric])
  with a show ?thesis by blast
qed

text \<open>An invariant of the states at the top of the loop holds of the state the loop returns.\<close>

lemma execute_loop_invariant:
  assumes "execute_loop fuel env opts maxC st = Some st'"
    and "I st"
    and "\<And>s. I s \<Longrightarrow> I (skip_pending s)"
    and "\<And>s. I s \<Longrightarrow> \<not> isComplete (st_graph s) \<Longrightarrow> readyNodes (st_graph s) \<noteq> [] \<Longrightarrow>
            I (run_batch env opts (slice0 (readyNodes (st_graph s)) maxC) s)"
  shows "I st'"
  using assms(1,2)
proof (induction fuel arbitrary: st)
  case 0
  then show ?case by simp
next
  case (Suc fuel)
  show ?case
  proof (cases "isComplete (st_graph st)")
    case True
    with Suc.prems show ?thesis by simp
  next
    case nc: False
    show ?thesis
    proof (cases "is_aborted opts (st_world st)")
      case True
      with nc Suc.prems assms(3) show ?thesis by auto
    next
      case na: False
      show ?thesis
      proof (cases "readyNodes (st_graph st) = []")
        case True
        with nc na Suc.prems show ?thesis by simp
      next
        case False
        let ?s = "run_batch env opts (slice0 (readyNodes (st_graph st)) maxC) st"
        have "execute_loop fuel env opts maxC ?s = Some st'"
          using nc na False Suc.prems(1) by (simp add: Let_def)
        moreover have "I ?s" using assms(4) [OF Suc.prems(2) nc False] .
        ultimately show ?thesis by (rule Suc.IH)
      qed
    qed
  qed
qed


section \<open>The loop returns\<close>


lemma final_status_not_Pending [simp]: "final_status res \<noteq> Pending"
  by (simp add: final_status_def split: TaskResult.splits)






lemma readyNodes_pending:
  "i \<in> set (readyNodes g) \<Longrightarrow> pending_at (nodes g) i"
  by (auto simp add: readyNodes_def isReady_def pending_at_def)

lemma set_slice0_subset: "set (slice0 xs e) \<subseteq> set xs"
  by (auto simp add: slice0_def dest: in_set_takeD)





section \<open>What a batch leaves untouched\<close>

lemma skip_mark_fields [simp]:
  "node_id (skip_mark xs k n) = node_id n"
  "result (skip_mark xs k n) = result n"
  by (simp_all add: skip_mark_def)

lemma skip_mark_not_Pending: "status n \<noteq> Pending \<Longrightarrow> skip_mark xs k n = n"
  by (simp add: skip_mark_def)

lemma status_skip_mark_cases:
  "status (skip_mark xs k n) = status n \<or> (status n = Pending \<and> status (skip_mark xs k n) = Skipped)"
  by (simp add: skip_mark_def)

lemma node_ids_mark_running [simp]: "map node_id (mark_running ns batch) = map node_id ns"
proof (induction batch arbitrary: ns)
  case Nil
  then show ?case by simp
next
  case (Cons i batch)
  show ?case by (simp add: mark_running_Cons Cons.IH map_update node_id_marked [symmetric] list_update_id
        del: node_id_marked) (simp add: map_update [symmetric] list_update_same_conv)
qed

lemma nth_mark_running:
  "j < length ns \<Longrightarrow>
     mark_running ns batch ! j = (if j \<in> set batch then (ns ! j)\<lparr>status := Running\<rparr> else ns ! j)"
proof (induction batch arbitrary: ns)
  case Nil
  then show ?case by simp
next
  case (Cons i batch)
  let ?ns1 = "ns[i := (ns ! i)\<lparr>status := Running\<rparr>]"
  have "j < length ?ns1" using Cons.prems by simp
  from Cons.IH [OF this] show ?case
    using Cons.prems by (cases "j = i") (auto simp add: mark_running_Cons)
qed

lemma node_ids_settled_nodes [simp]: "map node_id (settled_nodes ns i res) = map node_id ns"
  by (cases "i < length ns")
    (simp_all add: settled_nodes_def map_update list_update_beyond list_update_same_conv)

lemma node_ids_nodes_after_settle [simp]:
  "map node_id (nodes_after_settle ns i res) = map node_id ns"
  by (cases res) (simp_all add: nodes_after_settle_def comp_def)

lemma nth_nodes_after_settle_same:
  "i < length ns \<Longrightarrow>
     nodes_after_settle ns i res ! i = (ns ! i)\<lparr>result := Some res, status := final_status res\<rparr>"
  by (cases res) (simp_all add: nodes_after_settle_def settled_nodes_def skip_mark_def final_status_def)

lemma nth_nodes_after_settle_other:
  assumes "j < length ns" and "j \<noteq> i"
  shows "node_id (nodes_after_settle ns i res ! j) = node_id (ns ! j)
       \<and> result (nodes_after_settle ns i res ! j) = result (ns ! j)
       \<and> (status (ns ! j) \<noteq> Pending \<longrightarrow> nodes_after_settle ns i res ! j = ns ! j)
       \<and> (status (ns ! j) = Pending \<longrightarrow>
             status (nodes_after_settle ns i res ! j) = Pending
             \<or> status (nodes_after_settle ns i res ! j) = Skipped)"
  using assms
  by (cases res) (auto simp add: nodes_after_settle_def settled_nodes_def skip_mark_def)

lemma node_ids_skip_pending [simp]:
  "map node_id (nodes (st_graph (skip_pending st))) = map node_id (nodes (st_graph st))"
  by (simp add: comp_def)

lemma distinct_ids_neq:
  assumes "distinct (map node_id ns)" and "i < length ns" and "j < length ns" and "j \<noteq> i"
  shows "node_id (ns ! j) \<noteq> node_id (ns ! i)"
  using assms nth_eq_iff_index_eq [of "map node_id ns" j i] by simp

subsection \<open>The trace only grows\<close>

lemma start_all_trace:
  assumes "start_all env opts batch st = (cs, st1)"
    and "\<forall>i \<in> set batch. i < length (nodes (st_graph st))"
  shows "st_trace st1 = st_trace st @ map (\<lambda>i. NodeStart (node_id (nodes (st_graph st) ! i))) batch"
  using assms
proof (induction batch arbitrary: st cs st1)
  case Nil
  then show ?case by simp
next
  case (Cons i batch)
  obtain c sa where a: "executeNode_sync env opts i st = (c, sa)"
    by (cases "executeNode_sync env opts i st")
  obtain cs' sb where b: "start_all env opts batch sa = (cs', sb)"
    by (cases "start_all env opts batch sa")
  from Cons.prems(1) a b have eq: "st1 = sb" by simp
  have sa: "sa = snd (executeNode_sync env opts i st)" using a by simp
  let ?ns = "nodes (st_graph st)"
  have nsa: "nodes (st_graph sa) = ?ns[i := (?ns ! i)\<lparr>status := Running\<rparr>]"
    unfolding sa by (simp add: executeNode_sync_fields)
  have valid: "\<forall>i' \<in> set batch. i' < length (nodes (st_graph sa))"
    using Cons.prems(2) by (simp add: nsa)
  have ids: "node_id (nodes (st_graph sa) ! i') = node_id (?ns ! i')" if "i' < length ?ns" for i'
    using that by (cases "i' = i") (simp_all add: nsa)
  have "map (\<lambda>i'. NodeStart (node_id (nodes (st_graph sa) ! i'))) batch
        = map (\<lambda>i'. NodeStart (node_id (?ns ! i'))) batch"
    using Cons.prems(2) ids by (intro map_cong) auto
  moreover have "st_trace sa = st_trace st @ [NodeStart (node_id (?ns ! i))]"
    unfolding sa by (simp add: executeNode_sync_fields node_id_marked)
  ultimately show ?case
    using Cons.IH [OF b valid] unfolding eq by simp
qed

lemma agent_side_agent_event [simp]: "agent_side (agent_event a k e)"
  by (simp add: agent_side_def agent_event_def split: retry_event.splits)

lemma resume_trace:
  "\<exists>added. st_trace (snd (resume env i c st)) = st_trace st @ added \<and> list_all agent_side added"
proof (cases c)
  case (Returned r)
  then show ?thesis by (simp add: resume_def)
next
  case (Suspended a key)
  obtain r st' where async: "executeNode_async env i a key st = (r, st')"
    by (cases "executeNode_async env i a key st")
  from executeNode_async_effect [OF async] obtain evs where
    "st_trace st' =
       st_trace st @ (if rateLimit_enabled (getConfig env) then [Acquire (name a)] else [])
         @ map (agent_event (name a) (node_id (nodes (st_graph st) ! i))) evs
         @ (case r of Fulfilled (Ok out) \<Rightarrow>
               if cache_enabled (getConfig env) then [CacheSet key out] else []
            | _ \<Rightarrow> [])" by blast
  moreover have m: "list_all agent_side (map (agent_event x y) evs)" for x y
    by (simp add: list_all_iff)
  have "list_all agent_side
      ((if rateLimit_enabled (getConfig env) then [Acquire (name a)] else [])
         @ map (agent_event (name a) (node_id (nodes (st_graph st) ! i))) evs
         @ (case r of Fulfilled (Ok out) \<Rightarrow>
               if cache_enabled (getConfig env) then [CacheSet key out] else []
            | _ \<Rightarrow> []))"
    by (simp add: m) (simp add: agent_side_def split: Settled.splits TaskResult.splits)
  ultimately show ?thesis using Suspended async by (simp add: resume_def)
qed

lemma allSettled_trace:
  "allSettled env ics st = (rs, st2) \<Longrightarrow>
     \<exists>added. st_trace st2 = st_trace st @ added \<and> list_all agent_side added"
proof (induction ics arbitrary: st rs st2)
  case Nil
  then show ?case by simp
next
  case (Cons ic ics)
  obtain i c where ic: "ic = (i, c)" by (cases ic)
  obtain r sa where a: "resume env i c st = (r, sa)" by (cases "resume env i c st")
  obtain rs' sb where b: "allSettled env ics sa = (rs', sb)" by (cases "allSettled env ics sa")
  from Cons.prems ic a b have eq: "st2 = sb" by simp
  from resume_trace [of env i c st] a obtain ad1 where
    t1: "st_trace sa = st_trace st @ ad1" "list_all agent_side ad1" by auto
  from Cons.IH [OF b] obtain ad2 where
    t2: "st_trace sb = st_trace sa @ ad2" "list_all agent_side ad2" by auto
  show ?case unfolding eq using t1 t2 by (intro exI [of _ "ad1 @ ad2"]) simp
qed


section \<open>Results belong to dispatched nodes\<close>

lemma nth_node_id_eq:
  "map node_id xs = map node_id ys \<Longrightarrow> j < length ys \<Longrightarrow> node_id (xs ! j) = node_id (ys ! j)"
  by (metis length_map nth_map)

lemma settle_node_results_inv:
  assumes inv: "results_inv st"
    and i: "i < length (nodes (st_graph st))"
    and started: "NodeStart (node_id (nodes (st_graph st) ! i)) \<in> set (st_trace st)"
  shows "results_inv (settle_node env opts i settled st)"
proof -
  let ?ns = "nodes (st_graph st)"
  let ?res = "result_of_settled env settled"
  let ?ns' = "nodes_after_settle ?ns i ?res"
  let ?st' = "settle_node env opts i settled st"
  let ?k = "node_id (?ns ! i)"
  have n': "nodes (st_graph ?st') = ?ns'" by (simp add: settle_node_effect)
  have r': "st_nodeResults ?st' = (st_nodeResults st)(?k \<mapsto> ?res)" by (simp add: settle_node_effect)
  from inv have d: "distinct (map node_id ?ns)"
    and b: "\<And>j. j < length ?ns \<Longrightarrow> status (?ns ! j) \<noteq> Done \<Longrightarrow> status (?ns ! j) \<noteq> Failed
              \<Longrightarrow> result (?ns ! j) = None \<and> st_nodeResults st (node_id (?ns ! j)) = None"
    and c: "\<And>k. st_nodeResults st k \<noteq> None \<Longrightarrow> NodeStart k \<in> set (st_trace st)"
    by (simp_all add: results_inv_def)
  have d': "distinct (map node_id ?ns')" using d by simp
  have b': "result (?ns' ! j) = None \<and> ((st_nodeResults st)(?k \<mapsto> ?res)) (node_id (?ns' ! j)) = None"
    if j: "j < length ?ns'" and nd: "status (?ns' ! j) \<noteq> Done" and nf: "status (?ns' ! j) \<noteq> Failed"
    for j
  proof -
    have jl: "j < length ?ns" using j by simp
    have ji: "j \<noteq> i"
    proof
      assume "j = i"
      then have "status (?ns' ! j) = final_status ?res"
        using i by (simp add: nth_nodes_after_settle_same)
      with nd nf show False by (simp add: final_status_def split: TaskResult.splits)
    qed
    note o = nth_nodes_after_settle_other [OF jl ji, of ?res]
    have "status (?ns ! j) \<noteq> Done \<and> status (?ns ! j) \<noteq> Failed"
    proof (cases "status (?ns ! j) = Pending")
      case True
      then show ?thesis by simp
    next
      case False
      with o have "?ns' ! j = ?ns ! j" by blast
      with nd nf show ?thesis by simp
    qed
    with b [OF jl] have old: "result (?ns ! j) = None" "st_nodeResults st (node_id (?ns ! j)) = None"
      by simp_all
    have "node_id (?ns ! j) \<noteq> ?k" using d i jl ji by (rule distinct_ids_neq)
    then show ?thesis using o old by simp
  qed
  have c': "NodeStart k \<in> set (st_trace ?st')" if "((st_nodeResults st)(?k \<mapsto> ?res)) k \<noteq> None" for k
  proof (cases "k = ?k")
    case True
    then show ?thesis using started by (simp add: settle_node_effect)
  next
    case False
    with that have "st_nodeResults st k \<noteq> None" by simp
    from c [OF this] show ?thesis by (simp add: settle_node_effect)
  qed
  show ?thesis
    unfolding results_inv_def n' r' using d' b' c' by blast
qed

lemma settle_node_grows:
  "length (nodes (st_graph (settle_node env opts i settled st))) = length (nodes (st_graph st))"
  "map node_id (nodes (st_graph (settle_node env opts i settled st))) = map node_id (nodes (st_graph st))"
  "set (st_trace st) \<subseteq> set (st_trace (settle_node env opts i settled st))"
  by (auto simp add: settle_node_effect)

lemma settle_all_results_inv:
  assumes "results_inv st"
    and "\<forall>p \<in> set pairs. fst p < length (nodes (st_graph st))
           \<and> NodeStart (node_id (nodes (st_graph st) ! fst p)) \<in> set (st_trace st)"
  shows "results_inv (settle_all env opts pairs st)"
  using assms
proof (induction pairs arbitrary: st)
  case Nil
  then show ?case by simp
next
  case (Cons p pairs)
  obtain i settled where p: "p = (i, settled)" by (cases p)
  let ?sa = "settle_node env opts i settled st"
  have i: "i < length (nodes (st_graph st))"
    and s: "NodeStart (node_id (nodes (st_graph st) ! i)) \<in> set (st_trace st)"
    using Cons.prems(2) p by simp_all
  have inv: "results_inv ?sa" using Cons.prems(1) i s by (rule settle_node_results_inv)
  have rest: "\<forall>q \<in> set pairs. fst q < length (nodes (st_graph ?sa))
           \<and> NodeStart (node_id (nodes (st_graph ?sa) ! fst q)) \<in> set (st_trace ?sa)"
  proof
    fix q assume q: "q \<in> set pairs"
    with Cons.prems(2) have ql: "fst q < length (nodes (st_graph st))"
      and qs: "NodeStart (node_id (nodes (st_graph st) ! fst q)) \<in> set (st_trace st)" by simp_all
    have "node_id (nodes (st_graph ?sa) ! fst q) = node_id (nodes (st_graph st) ! fst q)"
      using settle_node_grows(2) ql by (rule nth_node_id_eq)
    then show "fst q < length (nodes (st_graph ?sa))
           \<and> NodeStart (node_id (nodes (st_graph ?sa) ! fst q)) \<in> set (st_trace ?sa)"
      using ql qs settle_node_grows(1,3) [where env = env and opts = opts and i = i
          and settled = settled and st = st] by auto
  qed
  from Cons.IH [OF inv rest] show ?case by (simp add: p)
qed

lemma run_batch_results_inv:
  assumes inv: "results_inv st"
    and pend: "\<forall>i \<in> set batch. pending_at (nodes (st_graph st)) i"
  shows "results_inv (run_batch env opts batch st)"
proof -
  let ?ns = "nodes (st_graph st)"
  obtain cs st1 where s1: "start_all env opts batch st = (cs, st1)"
    by (cases "start_all env opts batch st")
  obtain rs st2 where s2: "allSettled env (zip batch cs) st1 = (rs, st2)"
    by (cases "allSettled env (zip batch cs) st1")
  have rb: "run_batch env opts batch st = settle_all env opts (zip batch rs) st2"
    by (simp add: run_batch_def s1 s2)
  have valid: "\<forall>i \<in> set batch. i < length ?ns" using pend by (simp add: pending_at_def)
  from start_all_effect [OF s1] have n1: "nodes (st_graph st1) = mark_running ?ns batch"
    and r1: "st_nodeResults st1 = st_nodeResults st" by simp_all
  note t1 = start_all_trace [OF s1 valid]
  from allSettled_effect [OF s2] have g2: "st_graph st2 = st_graph st1"
    and r2: "st_nodeResults st2 = st_nodeResults st1" by simp_all
  from allSettled_trace [OF s2] obtain added where t2: "st_trace st2 = st_trace st1 @ added" by blast
  from inv have d: "distinct (map node_id ?ns)"
    and b: "\<And>j. j < length ?ns \<Longrightarrow> status (?ns ! j) \<noteq> Done \<Longrightarrow> status (?ns ! j) \<noteq> Failed
              \<Longrightarrow> result (?ns ! j) = None \<and> st_nodeResults st (node_id (?ns ! j)) = None"
    and c: "\<And>k. st_nodeResults st k \<noteq> None \<Longrightarrow> NodeStart k \<in> set (st_trace st)"
    by (simp_all add: results_inv_def)
  have n2: "nodes (st_graph st2) = mark_running ?ns batch" using g2 n1 by simp
  have nr2: "st_nodeResults st2 = st_nodeResults st" using r1 r2 by simp
  have b2: "result (mark_running ?ns batch ! j) = None
            \<and> st_nodeResults st (node_id (mark_running ?ns batch ! j)) = None"
    if j: "j < length ?ns" and nd: "status (mark_running ?ns batch ! j) \<noteq> Done"
      and nf: "status (mark_running ?ns batch ! j) \<noteq> Failed" for j
  proof (cases "j \<in> set batch")
    case True
    with pend have "status (?ns ! j) = Pending" by (simp add: pending_at_def)
    with b [OF j] have "result (?ns ! j) = None \<and> st_nodeResults st (node_id (?ns ! j)) = None"
      by simp
    then show ?thesis using True j by (simp add: nth_mark_running)
  next
    case False
    then have "mark_running ?ns batch ! j = ?ns ! j" using j by (simp add: nth_mark_running)
    with b [OF j] nd nf show ?thesis by simp
  qed
  have inv2: "results_inv st2"
    unfolding results_inv_def n2 nr2 using d b2 c t1 t2 by auto
  have pairs: "\<forall>p \<in> set (zip batch rs). fst p < length (nodes (st_graph st2))
           \<and> NodeStart (node_id (nodes (st_graph st2) ! fst p)) \<in> set (st_trace st2)"
  proof
    fix p assume "p \<in> set (zip batch rs)"
    then have "(fst p, snd p) \<in> set (zip batch rs)" by simp
    then have ib: "fst p \<in> set batch" by (rule set_zip_leftD)
    with valid have il: "fst p < length ?ns" by simp
    have "node_id (mark_running ?ns batch ! fst p) = node_id (?ns ! fst p)"
      using node_ids_mark_running il by (rule nth_node_id_eq)
    moreover have "NodeStart (node_id (?ns ! fst p)) \<in> set (st_trace st2)"
      unfolding t2 t1 using ib by simp
    ultimately show "fst p < length (nodes (st_graph st2))
           \<and> NodeStart (node_id (nodes (st_graph st2) ! fst p)) \<in> set (st_trace st2)"
      using il by (simp add: n2)
  qed
  show ?thesis unfolding rb using inv2 pairs by (rule settle_all_results_inv)
qed

lemma skip_pending_results_inv:
  assumes "results_inv st"
  shows "results_inv (skip_pending st)"
proof -
  let ?ns = "nodes (st_graph st)"
  let ?f = "\<lambda>n. if status n = Pending then n\<lparr>status := Skipped\<rparr> else n"
  from assms have d: "distinct (map node_id ?ns)"
    and b: "\<And>j. j < length ?ns \<Longrightarrow> status (?ns ! j) \<noteq> Done \<Longrightarrow> status (?ns ! j) \<noteq> Failed
              \<Longrightarrow> result (?ns ! j) = None \<and> st_nodeResults st (node_id (?ns ! j)) = None"
    and c: "\<And>k. st_nodeResults st k \<noteq> None \<Longrightarrow> NodeStart k \<in> set (st_trace st)"
    by (simp_all add: results_inv_def)
  have d': "distinct (map node_id (nodes (st_graph (skip_pending st))))"
    using d by (simp only: node_ids_skip_pending)
  have b': "result (map ?f ?ns ! j) = None \<and> st_nodeResults st (node_id (map ?f ?ns ! j)) = None"
    if "j < length ?ns" "status (map ?f ?ns ! j) \<noteq> Done" "status (map ?f ?ns ! j) \<noteq> Failed" for j
    using that b [of j] by (simp split: if_splits)
  show ?thesis
    unfolding results_inv_def using d' b' c by simp
qed

lemma batch_pending:
  "\<forall>i \<in> set (slice0 (readyNodes g) maxC). pending_at (nodes g) i"
  using set_slice0_subset [of "readyNodes g" maxC] readyNodes_pending [of _ g] by blast

lemma execute_loop_results_inv:
  assumes "execute_loop fuel env opts maxC st = Some st'" and "results_inv st"
  shows "results_inv st'"
proof (rule execute_loop_invariant [where I = results_inv, OF assms])
  fix s :: "'a ExecState" assume "results_inv s"
  then show "results_inv (skip_pending s)" by (rule skip_pending_results_inv)
next
  fix s :: "'a ExecState" assume "results_inv s"
  then show "results_inv (run_batch env opts (slice0 (readyNodes (st_graph s)) maxC) s)"
    using batch_pending by (rule run_batch_results_inv)
qed


section \<open>A rejected node\<close>



lemma filter_NodeEnd_NodeStart [simp]:
  "filter (is_NodeEnd_of k) (map (\<lambda>i. NodeStart (f i)) xs) = []"
  by (induction xs) (simp_all add: is_NodeEnd_of_def)














section \<open>Claims about one call of executeNode and about the exits of the loop\<close>

text \<open>
  Claim C3. For every run of \<open>execute\<close> that returns, \<open>success\<close> is true if and only
  if every node of the returned graph, which is the graph as the run left it, has
  status done. So a run that leaves a node in any other status, as the abort branch
  and the deadlock branch do, returns \<open>success = false\<close>.
\<close>

theorem execute_success_iff_all_done:
  assumes "Executor_execute fuel env g opts cache w = Some r"
  shows "\<exists>st. execute_run fuel env g opts cache w = Some st \<and> graph r = st_graph st
           \<and> (success r \<longleftrightarrow> (\<forall>n \<in> set (nodes (graph r)). status n = Done))
           \<and> ((\<exists>n \<in> set (nodes (st_graph st)). status n \<noteq> Done) \<longrightarrow> \<not> success r)"
  using assms by (auto simp add: Executor_execute_def toResult_def list_all_iff)

text \<open>
  Claim C6. When the loop condition holds and the abort signal is tripped at the top of
  the loop, the loop exits there with every pending node turned to skipped and every
  other node as it was; nothing is dispatched: no call is made, and the world, the
  cache and \<open>nodeResults\<close> are as before.
\<close>

theorem abort_skips_pending_and_exits:
  assumes "\<not> isComplete (st_graph st)" and "is_aborted opts (st_world st)"
  shows "\<exists>st'. execute_loop (Suc fuel) env opts maxC st = Some st'
           \<and> length (nodes (st_graph st')) = length (nodes (st_graph st))
           \<and> (\<forall>i < length (nodes (st_graph st)).
                 nodes (st_graph st') ! i =
                   (if status (nodes (st_graph st) ! i) = Pending
                    then (nodes (st_graph st) ! i)\<lparr>status := Skipped\<rparr>
                    else nodes (st_graph st) ! i))
           \<and> st_trace st' = st_trace st \<and> st_world st' = st_world st
           \<and> st_cache st' = st_cache st \<and> st_nodeResults st' = st_nodeResults st"
  using assms by simp

lemma agent_event_neq_CacheSet [simp]:
  "agent_event a x e \<noteq> CacheSet k v" "CacheSet k v \<noteq> agent_event a x e"
  by (simp_all add: agent_event_def split: retry_event.splits)

lemma agent_calls_of_retry_events':
  "length (filter (is_AgentExecute \<circ> agent_event a k) evs) = length (attempts evs)"
  using agent_calls_of_retry_events [of a k evs] by (simp add: filter_map)

lemma retry_delays_of_retry_events':
  "length (filter (is_RetryDelay \<circ> agent_event a k) evs) = length (delays evs)"
  using retry_delays_of_retry_events [of a k evs] by (simp add: filter_map)

text \<open>
  Claim C4. In \<open>executeNode\<close>, when the cache is enabled and holds an entry for
  \<open>taskKey(task, agent.name)\<close>, the node returns \<open>ok(cachedValue)\<close>: the only call
  made is \<open>onNodeStart\<close>, so neither the rate limiter nor the agent is invoked, and
  the cache is left as it was. And whatever the call does, a value is written to the
  cache only when the cache is enabled and the result is \<open>ok\<close> with that value as
  output; when the result is an error result or a rejection nothing is written.
\<close>

theorem executeNode_cache_hit_and_store:
  "(\<forall>agent v.
      cache_enabled (getConfig env) \<and> resolveAgent env (nodes (st_graph st) ! i) = Some agent
        \<and> st_cache st (taskKey env (task (nodes (st_graph st) ! i)) (name agent)) = Some v
      \<longrightarrow> executeNode env opts i st =
            (Fulfilled (Ok v),
             call_onNodeStart opts (node_id (nodes (st_graph st) ! i)) (setStatus i Running st))
        \<and> st_trace (snd (executeNode env opts i st)) =
            st_trace st @ [NodeStart (node_id (nodes (st_graph st) ! i))]
        \<and> st_cache (snd (executeNode env opts i st)) = st_cache st)
   \<and> (\<exists>added.
        st_trace (snd (executeNode env opts i st)) = st_trace st @ added
        \<and> (\<forall>k out. CacheSet k out \<in> set added
              \<longrightarrow> cache_enabled (getConfig env)
                \<and> fst (executeNode env opts i st) = Fulfilled (Ok out)
                \<and> st_cache (snd (executeNode env opts i st)) = (st_cache st)(k \<mapsto> out))
        \<and> ((\<forall>k out. CacheSet k out \<notin> set added)
              \<longrightarrow> st_cache (snd (executeNode env opts i st)) = st_cache st)
        \<and> ((\<forall>out. fst (executeNode env opts i st) \<noteq> Fulfilled (Ok out))
              \<longrightarrow> (\<forall>k out. CacheSet k out \<notin> set added)))"
proof (intro conjI allI impI)
  fix agent v
  assume h: "cache_enabled (getConfig env) \<and> resolveAgent env (nodes (st_graph st) ! i) = Some agent
        \<and> st_cache st (taskKey env (task (nodes (st_graph st) ! i)) (name agent)) = Some v"
  have sync: "executeNode_sync env opts i st =
     (Returned (Ok v), call_onNodeStart opts (node_id (nodes (st_graph st) ! i)) (setStatus i Running st))"
    using h executeNode_sync_hit [of env st i agent v opts] by simp
  show "executeNode env opts i st =
            (Fulfilled (Ok v),
             call_onNodeStart opts (node_id (nodes (st_graph st) ! i)) (setStatus i Running st))"
    by (simp add: executeNode_def sync resume_def)
  then show "st_trace (snd (executeNode env opts i st)) =
            st_trace st @ [NodeStart (node_id (nodes (st_graph st) ! i))]"
    and "st_cache (snd (executeNode env opts i st)) = st_cache st"
    by simp_all
next
  let ?k = "node_id (nodes (st_graph st) ! i)"
  let ?st1 = "call_onNodeStart opts ?k (setStatus i Running st)"
  have snd1: "snd (executeNode_sync env opts i st) = ?st1" by (rule executeNode_sync_snd)
  obtain c where c: "executeNode_sync env opts i st = (c, ?st1)"
    using snd1 by (cases "executeNode_sync env opts i st") simp
  show "\<exists>added.
        st_trace (snd (executeNode env opts i st)) = st_trace st @ added
        \<and> (\<forall>k out. CacheSet k out \<in> set added
              \<longrightarrow> cache_enabled (getConfig env)
                \<and> fst (executeNode env opts i st) = Fulfilled (Ok out)
                \<and> st_cache (snd (executeNode env opts i st)) = (st_cache st)(k \<mapsto> out))
        \<and> ((\<forall>k out. CacheSet k out \<notin> set added)
              \<longrightarrow> st_cache (snd (executeNode env opts i st)) = st_cache st)
        \<and> ((\<forall>out. fst (executeNode env opts i st) \<noteq> Fulfilled (Ok out))
              \<longrightarrow> (\<forall>k out. CacheSet k out \<notin> set added))"
  proof (cases c)
    case (Returned r)
    then have "executeNode env opts i st = (Fulfilled r, ?st1)"
      by (simp add: executeNode_def c resume_def)
    then show ?thesis by (intro exI [of _ "[NodeStart ?k]"]) simp
  next
    case (Suspended a key)
    obtain r st' where async: "executeNode_async env i a key ?st1 = (r, st')"
      by (cases "executeNode_async env i a key ?st1")
    have ex: "executeNode env opts i st = (r, st')"
      by (simp add: executeNode_def c resume_def Suspended async)
    from executeNode_async_effect [OF async] obtain evs where
      tr: "st_trace st' =
         st_trace ?st1 @ (if rateLimit_enabled (getConfig env) then [Acquire (name a)] else [])
         @ map (agent_event (name a) (node_id (nodes (st_graph ?st1) ! i))) evs
         @ (case r of Fulfilled (Ok out) \<Rightarrow>
               if cache_enabled (getConfig env) then [CacheSet key out] else []
            | _ \<Rightarrow> [])"
      and ca: "st_cache st' =
         (case r of Fulfilled (Ok out) \<Rightarrow>
            if cache_enabled (getConfig env) then (st_cache ?st1)(key \<mapsto> out) else st_cache ?st1
          | _ \<Rightarrow> st_cache ?st1)"
      by blast
    let ?added = "[NodeStart ?k] @ (if rateLimit_enabled (getConfig env) then [Acquire (name a)] else [])
         @ map (agent_event (name a) (node_id (nodes (st_graph ?st1) ! i))) evs
         @ (case r of Fulfilled (Ok out) \<Rightarrow>
               if cache_enabled (getConfig env) then [CacheSet key out] else []
            | _ \<Rightarrow> [])"
    have "st_trace st' = st_trace st @ ?added" using tr by simp
    moreover have "\<forall>k out. CacheSet k out \<in> set ?added
              \<longrightarrow> cache_enabled (getConfig env) \<and> r = Fulfilled (Ok out)
                \<and> st_cache st' = (st_cache st)(k \<mapsto> out)"
      using ca by (auto split: Settled.splits TaskResult.splits if_splits)
    moreover have "(\<forall>k out. CacheSet k out \<notin> set ?added) \<longrightarrow> st_cache st' = st_cache st"
      using ca by (auto split: Settled.splits TaskResult.splits if_splits)
    moreover have "(\<forall>out. r \<noteq> Fulfilled (Ok out)) \<longrightarrow> (\<forall>k out. CacheSet k out \<notin> set ?added)"
      by (auto split: Settled.splits TaskResult.splits if_splits)
    ultimately show ?thesis unfolding ex fst_conv snd_conv by (intro exI [of _ ?added]) blast
  qed
qed

text \<open>
  Claim C5. Where \<open>executeNode\<close> reaches the agent call (an agent is resolved and
  the cache gives no hit): if \<open>node.config.retries\<close> is absent, 0 or below, the agent
  is invoked exactly once, with no retry delay, and the node settles as that one call
  does. If it is \<open>N > 0\<close>, the call is \<open>withRetry\<close> with \<open>maxAttempts = N + 1\<close>: the
  node settles as \<open>withRetry\<close> does, and the agent is invoked at least once and at
  most \<open>N + 1\<close> times.
\<close>

theorem executeNode_retry_wrapping:
  assumes "i < length (nodes (st_graph st))"
    and "resolveAgent env (nodes (st_graph st) ! i) = Some agent"
    and "cache_enabled (getConfig env) \<longrightarrow>
           st_cache st (taskKey env (task (nodes (st_graph st) ! i)) (name agent)) = None"
  shows
    "(let node = (nodes (st_graph st) ! i)\<lparr>status := Running\<rparr>;
          w1 = st_world (call_onNodeStart opts (node_id node) (setStatus i Running st));
          run = execute agent node;
          n = nullish (optchain (config node) retries) 0;
          r = fst (executeNode env opts i st);
          st' = snd (executeNode env opts i st);
          added = drop (length (st_trace st)) (st_trace st')
      in (n \<le> 0 \<longrightarrow>
            length (filter is_AgentExecute added) = 1 \<and> filter is_RetryDelay added = []
            \<and> r = (case fst (run w1) of Inl e \<Rightarrow> Rejected (Some e) | Inr v \<Rightarrow> Fulfilled v)
            \<and> st_world st' = snd (run w1))
       \<and> (0 < n \<longrightarrow>
            (let wr = withRetry (getConfig env) run
                        (Some \<lparr>maxAttempts = Some (n + 1), baseDelayMs = None, maxDelayMs = None\<rparr>) w1
             in r = settled_of (fst wr) \<and> st_world st' = fst (snd wr)
                \<and> length (filter is_AgentExecute added) = length (attempts (snd (snd wr)))
                \<and> 1 \<le> length (filter is_AgentExecute added)
                \<and> int (length (filter is_AgentExecute added)) \<le> n + 1)))"
proof -
  let ?orig = "nodes (st_graph st) ! i"
  let ?nd = "?orig\<lparr>status := Running\<rparr>"
  let ?k = "node_id ?orig"
  let ?st1 = "call_onNodeStart opts ?k (setStatus i Running st)"
  let ?key = "taskKey env (task ?orig) (name agent)"
  let ?cfg = "getConfig env"
  let ?n = "nullish (optchain (config ?nd) retries) 0"
  have sync: "executeNode_sync env opts i st = (Suspended agent ?key, ?st1)"
    using assms(2,3) by (rule executeNode_sync_miss)
  obtain r st' where async: "executeNode_async env i agent ?key ?st1 = (r, st')"
    by (cases "executeNode_async env i agent ?key ?st1")
  have ex: "executeNode env opts i st = (r, st')"
    by (simp add: executeNode_def sync resume_def async)
  have node1: "nodes (st_graph ?st1) ! i = ?nd" using assms(1) by simp
  from executeNode_async_effect [OF async] obtain evs where
    tr: "st_trace st' =
       st_trace ?st1 @ (if rateLimit_enabled ?cfg then [Acquire (name agent)] else [])
       @ map (agent_event (name agent) ?k) evs
       @ (case r of Fulfilled (Ok out) \<Rightarrow> if cache_enabled ?cfg then [CacheSet ?key out] else []
          | _ \<Rightarrow> [])"
    and inv: "invokeAgent ?cfg agent ?nd (st_world ?st1) =
       (case r of Fulfilled v \<Rightarrow> Inr v | Rejected e \<Rightarrow> Inl e, st_world st', evs)"
    unfolding node1 by auto
  let ?added = "drop (length (st_trace st)) (st_trace st')"
  have added: "?added = [NodeStart ?k] @ (if rateLimit_enabled ?cfg then [Acquire (name agent)] else [])
       @ map (agent_event (name agent) ?k) evs
       @ (case r of Fulfilled (Ok out) \<Rightarrow> if cache_enabled ?cfg then [CacheSet ?key out] else []
          | _ \<Rightarrow> [])"
    using tr by simp
  have calls: "length (filter is_AgentExecute ?added) = length (attempts evs)"
    unfolding added
    by (simp add: agent_calls_of_retry_events' is_AgentExecute_def
        split: Settled.splits TaskResult.splits)
  have dels: "length (filter is_RetryDelay ?added) = length (delays evs)"
    unfolding added
    by (simp add: retry_delays_of_retry_events' is_RetryDelay_def
        split: Settled.splits TaskResult.splits)
  have r_of: "r = settled_of (fst (invokeAgent ?cfg agent ?nd (st_world ?st1)))"
    unfolding inv by (simp add: settled_of_def split: Settled.splits)
  have w_of: "st_world st' = fst (snd (invokeAgent ?cfg agent ?nd (st_world ?st1)))"
    unfolding inv by simp
  have evs_of: "evs = snd (snd (invokeAgent ?cfg agent ?nd (st_world ?st1)))"
    unfolding inv by simp
  have once: "length (filter is_AgentExecute ?added) = 1 \<and> filter is_RetryDelay ?added = []
            \<and> r = (case fst (execute agent ?nd (st_world ?st1)) of
                     Inl e \<Rightarrow> Rejected (Some e) | Inr v \<Rightarrow> Fulfilled v)
            \<and> st_world st' = snd (execute agent ?nd (st_world ?st1))"
    if "?n \<le> 0"
  proof -
    note one = invokeAgent_once [OF that, of ?cfg agent "st_world ?st1"]
    have "evs = [Attempt 1]" unfolding evs_of one by simp
    then have "length (filter is_AgentExecute ?added) = 1" "length (filter is_RetryDelay ?added) = 0"
      unfolding calls dels by (simp_all add: attempts_def delays_def)
    moreover have "r = (case fst (execute agent ?nd (st_world ?st1)) of
                     Inl e \<Rightarrow> Rejected (Some e) | Inr v \<Rightarrow> Fulfilled v)"
      unfolding r_of one by (simp add: settled_of_def split: sum.splits)
    moreover have "st_world st' = snd (execute agent ?nd (st_world ?st1))"
      unfolding w_of one by simp
    ultimately show ?thesis by simp
  qed
  have retry: "r = settled_of (fst (withRetry ?cfg (execute agent ?nd)
                        (Some \<lparr>maxAttempts = Some (?n + 1), baseDelayMs = None, maxDelayMs = None\<rparr>)
                        (st_world ?st1)))
       \<and> st_world st' = fst (snd (withRetry ?cfg (execute agent ?nd)
                        (Some \<lparr>maxAttempts = Some (?n + 1), baseDelayMs = None, maxDelayMs = None\<rparr>)
                        (st_world ?st1)))
       \<and> length (filter is_AgentExecute ?added) = length (attempts (snd (snd (withRetry ?cfg (execute agent ?nd)
                        (Some \<lparr>maxAttempts = Some (?n + 1), baseDelayMs = None, maxDelayMs = None\<rparr>)
                        (st_world ?st1)))))
       \<and> 1 \<le> length (filter is_AgentExecute ?added)
       \<and> int (length (filter is_AgentExecute ?added)) \<le> ?n + 1"
    if "0 < ?n"
  proof -
    let ?opts = "Some \<lparr>maxAttempts = Some (?n + 1), baseDelayMs = None, maxDelayMs = None\<rparr>"
    note wr = invokeAgent_retry [OF that, of ?cfg agent "st_world ?st1"]
    have eff: "effective_maxAttempts ?cfg ?opts = ?n + 1"
      by (simp add: effective_maxAttempts_def nullish_def optchain_def)
    then have ge: "1 \<le> effective_maxAttempts ?cfg ?opts" using that by simp
    note b = withRetry_attempts_bounds [OF ge, of "execute agent ?nd" "st_world ?st1"]
    show ?thesis
      using b r_of w_of calls unfolding evs_of wr eff by simp
  qed
  have nk: "node_id ?nd = ?k" by simp
  show ?thesis
    unfolding Let_def ex fst_conv snd_conv nk
    using once retry by blast
qed

theorem execute_success_iff_all_done_witness:
  "(\<exists>r. Executor_execute 5 executor1 graph2 (Some opts_abort) Map.empty 0 = Some r
        \<and> \<not> success r \<and> map status (nodes (graph r)) = [Done, Done, Skipped])
   \<and> (\<exists>r. Executor_execute 5 executor1 graph2 None Map.empty 0 = Some r
        \<and> success r \<and> map status (nodes (graph r)) = [Done, Done, Done])"
proof -
  have a: "map_option (\<lambda>r. map status (nodes (graph r)))
             (Executor_execute 5 executor1 graph2 (Some opts_abort) Map.empty 0)
           = Some [Done, Done, Skipped]"
    by code_simp
  then obtain r where r: "Executor_execute 5 executor1 graph2 (Some opts_abort) Map.empty 0 = Some r"
    and sr: "map status (nodes (graph r)) = [Done, Done, Skipped]"
    by (cases "Executor_execute 5 executor1 graph2 (Some opts_abort) Map.empty 0") auto
  have "Skipped \<in> set (map status (nodes (graph r)))" unfolding sr by simp
  then obtain n where n: "n \<in> set (nodes (graph r))" "status n = Skipped" by auto
  have "\<exists>n \<in> set (nodes (graph r)). status n \<noteq> Done"
    by (rule bexI [OF _ n(1)]) (simp add: n(2))
  then have "\<not> (\<forall>n \<in> set (nodes (graph r)). status n = Done)" by blast
  with execute_success_iff_all_done [OF r] have nr: "\<not> success r" by blast
  have b: "map_option (\<lambda>r. map status (nodes (graph r)))
             (Executor_execute 5 executor1 graph2 None Map.empty 0)
           = Some [Done, Done, Done]"
    by code_simp
  then obtain r' where r': "Executor_execute 5 executor1 graph2 None Map.empty 0 = Some r'"
    and sr': "map status (nodes (graph r')) = [Done, Done, Done]"
    by (cases "Executor_execute 5 executor1 graph2 None Map.empty 0") auto
  have "\<forall>s \<in> set (map status (nodes (graph r'))). s = Done" unfolding sr' by simp
  then have "\<forall>n \<in> set (nodes (graph r')). status n = Done" by simp
  with execute_success_iff_all_done [OF r'] have "success r'" by blast
  with r r' sr sr' nr show ?thesis by simp
qed

theorem abort_skips_pending_and_exits_witness:
  "\<not> isComplete (st_graph (initial_state graph2 Map.empty (2::nat)))
   \<and> is_aborted (Some opts_abort) (st_world (initial_state graph2 Map.empty (2::nat)))
   \<and> (\<exists>st'. execute_loop (Suc 0) executor1 (Some opts_abort) 2 (initial_state graph2 Map.empty 2)
              = Some st'
         \<and> map status (nodes (st_graph st')) = [Skipped, Skipped, Skipped]
         \<and> st_trace st' = [])"
proof -
  let ?st = "initial_state graph2 Map.empty (2::nat)"
  have h1: "\<not> isComplete (st_graph ?st)" by code_simp
  have h2: "is_aborted (Some opts_abort) (st_world ?st)" by code_simp
  from abort_skips_pending_and_exits [OF h1 h2, of 0 executor1 2]
  obtain st' where st': "execute_loop (Suc 0) executor1 (Some opts_abort) 2 ?st = Some st'"
    and tr: "st_trace st' = st_trace ?st"
    by blast
  have "map_option (\<lambda>st. map status (nodes (st_graph st)))
          (execute_loop (Suc 0) executor1 (Some opts_abort) 2 ?st)
        = Some [Skipped, Skipped, Skipped]"
    by code_simp
  then have "map status (nodes (st_graph st')) = [Skipped, Skipped, Skipped]"
    unfolding st' by simp
  moreover have "st_trace st' = []" using tr by (simp add: initial_state_def)
  ultimately show ?thesis using h1 h2 st' by simp
qed

theorem executeNode_cache_hit_and_store_witness:
  "cache_enabled (getConfig executor1)
   \<and> resolveAgent executor1 (nodes (st_graph (initial_state graph2 [''a1:t1'' \<mapsto> ''kept''] (0::nat))) ! 0)
       = Some agent1
   \<and> st_cache (initial_state graph2 [''a1:t1'' \<mapsto> ''kept''] (0::nat))
       (taskKey executor1 (task (nodes graph2 ! 0)) (name agent1)) = Some ''kept''
   \<and> fst (executeNode executor1 None 0 (initial_state graph2 [''a1:t1'' \<mapsto> ''kept''] (0::nat)))
       = Fulfilled (Ok ''kept'')
   \<and> st_trace (snd (executeNode executor1 None 0 (initial_state graph2 [''a1:t1'' \<mapsto> ''kept''] (0::nat))))
       = [NodeStart ''N1'']"
proof -
  let ?st = "initial_state graph2 [''a1:t1'' \<mapsto> ''kept''] (0::nat)"
  have h1: "cache_enabled (getConfig executor1)" by (simp add: executor1_def config1_def)
  have h2: "resolveAgent executor1 (nodes (st_graph ?st) ! 0) = Some agent1"
    by (simp add: resolveAgent_def executor1_def registry1_def initial_state_def graph2_def mkNode_def)
  have h3: "st_cache ?st (taskKey executor1 (task (nodes (st_graph ?st) ! 0)) (name agent1)) = Some ''kept''"
    by (simp add: initial_state_def executor1_def graph2_def mkNode_def agent1_def)
  have g: "st_graph ?st = graph2" by (simp add: initial_state_def)
  have k: "node_id (nodes (st_graph ?st) ! 0) = ''N1''"
    by (simp add: initial_state_def graph2_def mkNode_def)
  have t: "st_trace ?st = []" by (simp add: initial_state_def)
  from executeNode_cache_hit_and_store [of executor1 ?st 0 None] h1 h2 h3
  have "executeNode executor1 None 0 ?st =
          (Fulfilled (Ok ''kept''),
           call_onNodeStart None (node_id (nodes (st_graph ?st) ! 0)) (setStatus 0 Running ?st))"
    and "st_trace (snd (executeNode executor1 None 0 ?st)) =
          st_trace ?st @ [NodeStart (node_id (nodes (st_graph ?st) ! 0))]"
    by blast+
  then show ?thesis using h1 h2 h3 k t g by simp
qed

theorem executeNode_retry_wrapping_witness:
  "0 < length (nodes (st_graph (initial_state graph3 Map.empty (0::nat))))
   \<and> resolveAgent executor2 (nodes (st_graph (initial_state graph3 Map.empty (0::nat))) ! 0) = Some agent2
   \<and> \<not> cache_enabled (getConfig executor2)
   \<and> fst (executeNode executor2 None 0 (initial_state graph3 Map.empty (0::nat))) = Fulfilled (Ok ''up'')
   \<and> st_trace (snd (executeNode executor2 None 0 (initial_state graph3 Map.empty (0::nat)))) =
       [NodeStart ''R'', AgentExecute ''a2'' ''R'', RetryDelay 100, AgentExecute ''a2'' ''R'',
        RetryDelay 150, AgentExecute ''a2'' ''R'']
   \<and> int (length (filter is_AgentExecute
        (st_trace (snd (executeNode executor2 None 0 (initial_state graph3 Map.empty (0::nat))))))) \<le> 2 + 1"
proof -
  let ?st = "initial_state graph3 Map.empty (0::nat)"
  have h1: "0 < length (nodes (st_graph ?st))" by (simp add: initial_state_def graph3_def)
  have h2: "resolveAgent executor2 (nodes (st_graph ?st) ! 0) = Some agent2"
    by (simp add: resolveAgent_def executor2_def initial_state_def graph3_def mkNode_def)
  have h3: "\<not> cache_enabled (getConfig executor2)" by (simp add: executor2_def)
  then have h3': "cache_enabled (getConfig executor2) \<longrightarrow>
      st_cache ?st (taskKey executor2 (task (nodes (st_graph ?st) ! 0)) (name agent2)) = None"
    by simp
  have n: "nullish (optchain (config ((nodes (st_graph ?st) ! 0)\<lparr>status := Running\<rparr>)) retries) 0 = 2"
    by (simp add: initial_state_def graph3_def mkNode_def nullish_def optchain_def)
  have t: "st_trace ?st = []" by (simp add: initial_state_def)
  note T = executeNode_retry_wrapping [OF h1 h2 h3', of None, unfolded Let_def n t]
  then have bound: "int (length (filter is_AgentExecute
        (st_trace (snd (executeNode executor2 None 0 ?st))))) \<le> 2 + 1"
    by simp
  have r: "fst (executeNode executor2 None 0 ?st) = Fulfilled (Ok ''up'')" by code_simp
  have tr: "st_trace (snd (executeNode executor2 None 0 ?st)) =
       [NodeStart ''R'', AgentExecute ''a2'' ''R'', RetryDelay 100, AgentExecute ''a2'' ''R'',
        RetryDelay 150, AgentExecute ''a2'' ''R'']"
    by code_simp
  show ?thesis using h1 h2 h3 r tr bound by simp
qed


section \<open>The bound on running nodes\<close>

text \<open>
  Claim C7. For every run with \<open>maxConcurrency = M \<ge> 1\<close> on a graph in which no node
  is running at the start, at every instant of the run, that is after every write to
  a node's status, the number of running nodes is at most \<open>M\<close>: a batch is the first
  \<open>M\<close> ready nodes at most, and every node of a batch has left the status running
  when the next batch is taken.
\<close>

theorem running_nodes_bounded:
  assumes "1 \<le> effective_maxConcurrency env opts"
    and "\<forall>n \<in> set (nodes g). status n \<noteq> Running"
    and "execute_run fuel env g opts cache w = Some st"
  shows "(\<forall>h \<in> set (st_history st).
            int (count_running h) \<le> effective_maxConcurrency env opts)
       \<and> (\<forall>n \<in> set (nodes (st_graph st)). status n \<noteq> Running)"
proof -
  let ?M = "nat (effective_maxConcurrency env opts)"
  let ?I = "\<lambda>s::'b ExecState. (\<forall>n \<in> set (nodes (st_graph s)). status n \<noteq> Running)
       \<and> (\<forall>h \<in> set (st_history s). count_running h \<le> ?M)"
  have run: "execute_loop fuel env opts (effective_maxConcurrency env opts) (initial_state g cache w) = Some st"
    using assms(3) by (simp add: execute_run_def)
  have "Running \<notin> set (map status (nodes g))" using assms(2) by auto
  then have "count_running (map status (nodes g)) = 0" by (rule count_running_none)
  then have init: "?I (initial_state g cache w)"
    using assms(2) by (simp add: initial_state_def)
  have "?I st"
  proof (rule execute_loop_invariant [where I = ?I, OF run init])
    fix s :: "'b ExecState" assume "?I s"
    then show "?I (skip_pending s)" using skip_pending_running [of s ?M] by blast
  next
    fix s :: "'b ExecState" assume I: "?I s"
    have "length (slice0 (readyNodes (st_graph s)) (effective_maxConcurrency env opts)) \<le> ?M"
      using assms(1) by (intro length_slice0) simp
    with I show "?I (run_batch env opts (slice0 (readyNodes (st_graph s)) (effective_maxConcurrency env opts)) s)"
      using run_batch_running [of s ?M _ env opts] by blast
  qed
  moreover have "int (count_running h) \<le> effective_maxConcurrency env opts"
    if "count_running h \<le> ?M" for h
    using that assms(1) by linarith
  ultimately show ?thesis by blast
qed

theorem running_nodes_bounded_witness:
  "1 \<le> effective_maxConcurrency executor1 None
   \<and> map status (nodes graph1) = [Pending, Pending, Pending, Pending, Pending]
   \<and> (\<exists>st. execute_run 5 executor1 graph1 None Map.empty 0 = Some st
         \<and> list_all (\<lambda>h. int (count_running h) \<le> 2) (st_history st)
         \<and> map count_running (st_history st) = [0, 1, 2, 1, 1, 0])"
proof -
  have h1: "1 \<le> effective_maxConcurrency executor1 None" by code_simp
  have m: "effective_maxConcurrency executor1 None = 2" by code_simp
  have s: "map status (nodes graph1) = [Pending, Pending, Pending, Pending, Pending]"
    by code_simp
  have "\<forall>x \<in> set (map status (nodes graph1)). x \<noteq> Running" unfolding s by simp
  then have h2: "\<forall>n \<in> set (nodes graph1). status n \<noteq> Running" by simp
  have c: "map_option (\<lambda>st. map count_running (st_history st))
             (execute_run 5 executor1 graph1 None Map.empty 0) = Some [0, 1, 2, 1, 1, 0]"
    by code_simp
  then obtain st where st: "execute_run 5 executor1 graph1 None Map.empty 0 = Some st"
    and cs: "map count_running (st_history st) = [0, 1, 2, 1, 1, 0]"
    by (cases "execute_run 5 executor1 graph1 None Map.empty 0") auto
  from running_nodes_bounded [OF h1 h2 st]
  have "list_all (\<lambda>h. int (count_running h) \<le> 2) (st_history st)"
    unfolding m by (simp add: list_all_iff)
  with h1 s st cs show ?thesis by simp
qed


section \<open>Skipped nodes and results\<close>

text \<open>
  Claim C9. For every run of \<open>execute\<close> on a graph with pairwise distinct node ids in
  which only done and failed nodes carry a result at the start: in the returned
  \<open>ExecutionResult\<close> a node whose status is skipped has no entry in \<open>nodeResults\<close>
  and its \<open>result\<close> field is absent, and every key of \<open>nodeResults\<close> is the id of
  a node that was dispatched (its \<open>executeNode\<close> was started in some batch).
\<close>

theorem skipped_nodes_have_no_result:
  assumes "distinct (map node_id (nodes g))"
    and "\<forall>n \<in> set (nodes g). status n \<noteq> Done \<and> status n \<noteq> Failed \<longrightarrow> result n = None"
    and "Executor_execute fuel env g opts cache w = Some r"
  shows "\<exists>st. execute_run fuel env g opts cache w = Some st \<and> r = toResult st
           \<and> (\<forall>n \<in> set (nodes (graph r)).
                 status n = Skipped \<longrightarrow> nodeResults r (node_id n) = None \<and> result n = None)
           \<and> (\<forall>k. nodeResults r k \<noteq> None \<longrightarrow> NodeStart k \<in> set (st_trace st))"
proof -
  from assms(3) obtain st where st: "execute_run fuel env g opts cache w = Some st"
    and r: "r = toResult st"
    by (auto simp add: Executor_execute_def)
  have init: "results_inv (initial_state g cache w)"
    unfolding results_inv_def using assms(1,2) by (simp add: initial_state_def)
  have inv: "results_inv st"
    using st init unfolding execute_run_def by (rule execute_loop_results_inv)
  let ?ns = "nodes (st_graph st)"
  have sk: "st_nodeResults st (node_id n) = None \<and> result n = None"
    if "n \<in> set ?ns" "status n = Skipped" for n
  proof -
    from that(1) obtain j where j: "j < length ?ns" "?ns ! j = n"
      by (auto simp add: in_set_conv_nth)
    with inv that(2) show ?thesis by (auto simp add: results_inv_def)
  qed
  have keys: "NodeStart k \<in> set (st_trace st)" if "st_nodeResults st k \<noteq> None" for k
    using inv that by (simp add: results_inv_def)
  show ?thesis
    using st r sk keys by (intro exI [of _ st]) (simp add: toResult_def)
qed

theorem skipped_nodes_have_no_result_witness:
  "distinct (map node_id (nodes graph1))
   \<and> map result (nodes graph1) = [None, None, None, None, None]
   \<and> (\<exists>r. Executor_execute 5 executor1 graph1 None Map.empty 0 = Some r
         \<and> map status (nodes (graph r)) = [Failed, Skipped, Skipped, Skipped, Done]
         \<and> map (nodeResults r) [''A'', ''B'', ''C'', ''D'', ''E'']
             = [Some (Error ''crash''), None, None, None, Some (Ok ''te'')]
         \<and> map result (nodes (graph r))
             = [Some (Error ''crash''), None, None, None, Some (Ok ''te'')])"
proof -
  have h1: "distinct (map node_id (nodes graph1))" by code_simp
  have h2': "map result (nodes graph1) = [None, None, None, None, None]" by code_simp
  have "\<forall>x \<in> set (map result (nodes graph1)). x = None" unfolding h2' by simp
  then have h2: "\<forall>n \<in> set (nodes graph1). status n \<noteq> Done \<and> status n \<noteq> Failed \<longrightarrow> result n = None"
    by simp
  have c: "map_option (\<lambda>r. (map status (nodes (graph r)),
                            map (nodeResults r) [''A'', ''B'', ''C'', ''D'', ''E''],
                            map result (nodes (graph r))))
             (Executor_execute 5 executor1 graph1 None Map.empty 0)
           = Some ([Failed, Skipped, Skipped, Skipped, Done],
                   [Some (Error ''crash''), None, None, None, Some (Ok ''te'')],
                   [Some (Error ''crash''), None, None, None, Some (Ok ''te'')])"
    by code_simp
  then obtain r where r: "Executor_execute 5 executor1 graph1 None Map.empty 0 = Some r"
    and f: "map status (nodes (graph r)) = [Failed, Skipped, Skipped, Skipped, Done]"
       "map (nodeResults r) [''A'', ''B'', ''C'', ''D'', ''E'']
             = [Some (Error ''crash''), None, None, None, Some (Ok ''te'')]"
       "map result (nodes (graph r)) = [Some (Error ''crash''), None, None, None, Some (Ok ''te'')]"
    by (cases "Executor_execute 5 executor1 graph1 None Map.empty 0") auto
  from skipped_nodes_have_no_result [OF h1 h2 r]
  have "\<forall>n \<in> set (nodes (graph r)).
          status n = Skipped \<longrightarrow> nodeResults r (node_id n) = None \<and> result n = None"
    by (elim exE conjE)
  with h1 h2' r f show ?thesis by simp
qed


lemma slice0_Nil [simp]: "slice0 [] e = []"
  by (simp add: slice0_def)




section \<open>The planner: stripping, parsing, validating\<close>


lemma replace_first_cases:
  "replace_first m bol s = s
   \<or> (\<exists>pre rest n. s = pre @ rest \<and> rest \<noteq> [] \<and> m (line_start bol pre) rest = Some n
         \<and> replace_first m bol s = pre @ drop n rest)"
proof (induction s arbitrary: bol)
  case Nil
  then show ?case by simp
next
  case (Cons c cs)
  show ?case
  proof (cases "m bol (c # cs)")
    case (Some n)
    then have "c # cs = [] @ (c # cs) \<and> c # cs \<noteq> [] \<and> m (line_start bol []) (c # cs) = Some n
         \<and> replace_first m bol (c # cs) = [] @ drop n (c # cs)"
      by (simp add: line_start_def)
    then show ?thesis by blast
  next
    case None
    then have r: "replace_first m bol (c # cs) = c # replace_first m (is_lineTerminator c) cs"
      by simp
    from Cons.IH [of "is_lineTerminator c"] show ?thesis
    proof
      assume "replace_first m (is_lineTerminator c) cs = cs"
      then show ?thesis using r by simp
    next
      assume "\<exists>pre rest n. cs = pre @ rest \<and> rest \<noteq> []
           \<and> m (line_start (is_lineTerminator c) pre) rest = Some n
           \<and> replace_first m (is_lineTerminator c) cs = pre @ drop n rest"
      then obtain pre rest n where p: "cs = pre @ rest" "rest \<noteq> []"
        "m (line_start (is_lineTerminator c) pre) rest = Some n"
        "replace_first m (is_lineTerminator c) cs = pre @ drop n rest" by blast
      have ls: "line_start bol (c # pre) = line_start (is_lineTerminator c) pre"
        by (simp add: line_start_def)
      have "c # cs = (c # pre) @ rest \<and> rest \<noteq> [] \<and> m (line_start bol (c # pre)) rest = Some n
         \<and> replace_first m bol (c # cs) = (c # pre) @ drop n rest"
        using p r ls by simp
      then show ?thesis by blast
    qed
  qed
qed

lemma take_eq_fence: "take 3 s = fence \<Longrightarrow> s = fence @ drop 3 s"
  by (metis append_take_drop_id)

lemma list_all_takeWhile [simp]: "list_all P (takeWhile P xs)"
  by (induction xs) simp_all

lemma match_leading_Some:
  assumes "match_leading bol rest = Some n"
  shows "bol \<and> n \<le> length rest \<and> is_open_marker (take n rest)"
proof -
  from assms have bol: bol and f: "take 3 rest = fence"
    by (simp_all add: match_leading_def split: if_splits)
  define r1 where "r1 = drop 3 rest"
  have rest: "rest = fence @ r1" unfolding r1_def using f by (rule take_eq_fence)
  show ?thesis
  proof (cases "take 4 r1 = ''json''")
    case True
    define r2 where "r2 = drop 4 r1"
    have r1: "r1 = ''json'' @ r2" unfolding r2_def using True by (metis append_take_drop_id)
    define ws where "ws = takeWhile is_space r2"
    have n: "n = 7 + length ws"
      using assms bol f True
      by (simp add: match_leading_def Let_def r1_def [symmetric] r2_def [symmetric] ws_def)
    have r2: "r2 = ws @ dropWhile is_space r2" unfolding ws_def by simp
    define mk where "mk = fence @ ''json'' @ ws"
    have full: "rest = mk @ dropWhile is_space r2"
      unfolding mk_def using rest r1 r2 by simp
    have nl: "n = length mk" by (simp add: n mk_def fence_def)
    have tk: "take n rest = mk" by (subst full) (simp add: nl)
    have "is_open_marker mk"
      by (simp add: mk_def is_open_marker_def fence_def ws_def)
    moreover have "n \<le> length rest" by (subst full) (simp add: nl)
    ultimately show ?thesis using bol tk by simp
  next
    case False
    define ws where "ws = takeWhile is_space r1"
    have n: "n = 3 + length ws"
      using assms bol f False
      by (simp add: match_leading_def Let_def r1_def [symmetric] ws_def)
    have r1: "r1 = ws @ dropWhile is_space r1" unfolding ws_def by simp
    define mk where "mk = fence @ ws"
    have full: "rest = mk @ dropWhile is_space r1" unfolding mk_def using rest r1 by simp
    have nl: "n = length mk" by (simp add: n mk_def fence_def)
    have tk: "take n rest = mk" by (subst full) (simp add: nl)
    have "is_open_marker mk"
      by (simp add: mk_def is_open_marker_def fence_def ws_def)
    moreover have "n \<le> length rest" by (subst full) (simp add: nl)
    ultimately show ?thesis using bol tk by simp
  qed
qed

lemma last_lineTerminator_Some:
  assumes "last_lineTerminator ws = Some k"
  shows "k < length ws \<and> is_lineTerminator (ws ! k)"
proof -
  from assms obtain ks where "filter (\<lambda>k. is_lineTerminator (ws ! k)) (rev [0..<length ws]) = k # ks"
    by (auto simp add: last_lineTerminator_def split: list.splits)
  then have "k \<in> set (filter (\<lambda>k. is_lineTerminator (ws ! k)) (rev [0..<length ws]))" by simp
  then show ?thesis by simp
qed

lemma match_trailing_Some:
  assumes "match_trailing bol rest = Some n"
  shows "n \<le> length rest \<and> is_close_marker (take n rest) \<and> at_line_end (drop n rest)"
proof -
  define n0 :: nat where "n0 = (if take 1 rest = [CHR 0x0A] then 1 else 0)"
  define r0 where "r0 = drop n0 rest"
  define r1 where "r1 = drop 3 r0"
  define ws where "ws = takeWhile is_space r1"
  define after where "after = dropWhile is_space r1"
  define lead where "lead = take n0 rest"
  have mt: "match_trailing bol rest =
      (if take 3 r0 = fence then
         (if after = [] then Some (n0 + 3 + length ws)
          else (case last_lineTerminator ws of None \<Rightarrow> None | Some k \<Rightarrow> Some (n0 + 3 + k)))
       else None)"
    by (simp only: match_trailing_def Let_def n0_def r0_def r1_def ws_def after_def)
  have f: "take 3 r0 = fence"
    using assms unfolding mt by (simp split: if_splits)
  have rest: "rest = lead @ r0" unfolding lead_def r0_def by simp
  have r0: "r0 = fence @ r1" unfolding r1_def using f by (rule take_eq_fence)
  have r1: "r1 = ws @ after" unfolding ws_def after_def by simp
  have ll: "length lead = n0"
    unfolding lead_def n0_def by (cases rest) (simp_all split: if_splits)
  have lead: "lead = [] \<or> lead = [CHR 0x0A]"
    unfolding lead_def n0_def by (simp split: if_splits)
  have sp: "list_all is_space ws" unfolding ws_def by simp
  have close: "is_close_marker (lead @ fence @ xs)" if "list_all is_space xs" for xs
    using lead that by (auto simp add: is_close_marker_def fence_def)
  show ?thesis
  proof (cases "after = []")
    case True
    have n: "n = n0 + 3 + length ws"
      using assms f True unfolding mt by simp
    define mk where "mk = lead @ fence @ ws"
    have full: "rest = mk @ []" unfolding mk_def using rest r0 r1 True by simp
    have nl: "n = length mk" by (simp add: n mk_def fence_def ll)
    have "take n rest = mk" "drop n rest = []" "n \<le> length rest"
      by (subst full, simp add: nl)+
    moreover have "is_close_marker mk" unfolding mk_def using sp by (rule close)
    ultimately show ?thesis by (simp add: at_line_end_def)
  next
    case False
    then obtain k where lk: "last_lineTerminator ws = Some k" and n: "n = n0 + 3 + k"
      using assms f unfolding mt by (auto split: option.splits)
    from last_lineTerminator_Some [OF lk] have k: "k < length ws" and lt: "is_lineTerminator (ws ! k)"
      by simp_all
    define mk where "mk = lead @ fence @ take k ws"
    define tl where "tl = drop k ws @ after"
    have ws: "ws = take k ws @ drop k ws" by simp
    have full: "rest = mk @ tl"
      unfolding mk_def tl_def using rest r0 r1 ws by (metis append.assoc)
    have nl: "n = length mk" using k by (simp add: n mk_def fence_def ll)
    have tk: "take n rest = mk" and dr: "drop n rest = tl" and le: "n \<le> length rest"
      by (subst full, simp add: nl)+
    have "list_all is_space (take k ws)" using sp by (simp add: list_all_iff) (meson in_set_takeD)
    then have "is_close_marker mk" unfolding mk_def by (rule close)
    moreover have "hd tl = ws ! k" unfolding tl_def using k by (simp add: hd_drop_conv_nth)
    moreover have "tl \<noteq> []" unfolding tl_def using k by simp
    ultimately show ?thesis using tk dr le lt by (simp add: at_line_end_def)
  qed
qed

lemma strip_leading_cases:
  "strip_leading raw = raw
   \<or> (\<exists>pre m post. raw = pre @ m @ post \<and> strip_leading raw = pre @ post
         \<and> at_line_start pre \<and> is_open_marker m)"
proof -
  from replace_first_cases [of match_leading True raw] show ?thesis
  proof
    assume "replace_first match_leading True raw = raw"
    then show ?thesis by (simp add: strip_leading_def)
  next
    assume "\<exists>pre rest n. raw = pre @ rest \<and> rest \<noteq> []
        \<and> match_leading (line_start True pre) rest = Some n
        \<and> replace_first match_leading True raw = pre @ drop n rest"
    then obtain pre rest n where p: "raw = pre @ rest"
      "match_leading (line_start True pre) rest = Some n"
      "replace_first match_leading True raw = pre @ drop n rest" by blast
    from match_leading_Some [OF p(2)] have ls: "line_start True pre"
      and mk: "is_open_marker (take n rest)" by simp_all
    have "raw = pre @ take n rest @ drop n rest" using p(1) by simp
    moreover have "strip_leading raw = pre @ drop n rest" using p(3) by (simp add: strip_leading_def)
    moreover have "at_line_start pre" using ls by (simp add: line_start_def at_line_start_def split: if_splits)
    ultimately show ?thesis using mk by blast
  qed
qed

lemma strip_trailing_cases:
  "strip_trailing s = s
   \<or> (\<exists>pre m post. s = pre @ m @ post \<and> strip_trailing s = pre @ post
         \<and> is_close_marker m \<and> at_line_end post)"
proof -
  from replace_first_cases [of match_trailing True s] show ?thesis
  proof
    assume "replace_first match_trailing True s = s"
    then show ?thesis by (simp add: strip_trailing_def)
  next
    assume "\<exists>pre rest n. s = pre @ rest \<and> rest \<noteq> []
        \<and> match_trailing (line_start True pre) rest = Some n
        \<and> replace_first match_trailing True s = pre @ drop n rest"
    then obtain pre rest n where p: "s = pre @ rest"
      "match_trailing (line_start True pre) rest = Some n"
      "replace_first match_trailing True s = pre @ drop n rest" by blast
    from match_trailing_Some [OF p(2)] have mk: "is_close_marker (take n rest)"
      and le: "at_line_end (drop n rest)" by simp_all
    have "s = pre @ take n rest @ drop n rest" using p(1) by simp
    moreover have "strip_trailing s = pre @ drop n rest" using p(3) by (simp add: strip_trailing_def)
    ultimately show ?thesis using mk le by blast
  qed
qed

subsection \<open>The schema\<close>

lemma z_string_min1_Inr:
  "z_string_min1 v = Inr s \<Longrightarrow> v = Some (JString s) \<and> s \<noteq> []"
  by (auto simp add: z_string_min1_def split: option.splits json.splits if_splits)

lemma z_string_optional_Inr:
  "z_string_optional v = Inr a \<Longrightarrow> v = map_option JString a"
  by (auto simp add: z_string_optional_def split: option.splits json.splits)

lemma z_string_array_default_None: "z_string_array_default None = Inr []"
  by (simp add: z_string_array_default_def)

lemma component_issues_nonempty:
  "z_string_min1 v = Inl is1 \<Longrightarrow> is1 \<noteq> []"
  "z_string_optional v = Inl is2 \<Longrightarrow> is2 \<noteq> []"
  "z_string_array_default v = Inl is3 \<Longrightarrow> is3 \<noteq> []"
proof -
  show "z_string_min1 v = Inl is1 \<Longrightarrow> is1 \<noteq> []"
    by (auto simp add: z_string_min1_def split: option.splits json.splits if_splits)
  show "z_string_optional v = Inl is2 \<Longrightarrow> is2 \<noteq> []"
    by (auto simp add: z_string_optional_def split: option.splits json.splits)
  show "z_string_array_default v = Inl is3 \<Longrightarrow> is3 \<noteq> []"
  proof (cases v)
    case None
    assume "z_string_array_default v = Inl is3"
    with None show ?thesis by (simp add: z_string_array_default_def)
  next
    case (Some j)
    assume a: "z_string_array_default v = Inl is3"
    show ?thesis
    proof (cases j)
      case (JArray xs)
      with a Some show ?thesis
        by (auto simp add: z_string_array_default_def Let_def split: if_splits)
    qed (use a Some in \<open>auto simp add: z_string_array_default_def\<close>)
  qed
qed

lemma PlannerNodeSchema_Inr:
  assumes "PlannerNodeSchema x = Inr n"
  shows "node_shape x n"
proof -
  from assms obtain kvs where x: "x = JObject kvs"
    by (cases x) (simp_all add: PlannerNodeSchema_def)
  from assms x have
    a: "z_string_min1 (map_of kvs ''id'') = Inr (plan_id n)"
    and b: "z_string_min1 (map_of kvs ''task'') = Inr (plan_task n)"
    and c: "z_string_array_default (map_of kvs ''dependsOn'') = Inr (plan_dependsOn n)"
    and d: "z_string_optional (map_of kvs ''assignTo'') = Inr (plan_assignTo n)"
    by (auto simp add: PlannerNodeSchema_def Let_def split: sum.splits)
  have dep: "plan_dependsOn n = []" if "map_of kvs ''dependsOn'' = None"
    using c that by (simp add: z_string_array_default_None)
  show ?thesis
    unfolding node_shape_def x
    using z_string_min1_Inr [OF a] z_string_min1_Inr [OF b] z_string_optional_Inr [OF d] dep
    by auto
qed

lemma PlannerNodeSchema_Inl: "PlannerNodeSchema x = Inl iss \<Longrightarrow> iss \<noteq> []"
proof (cases x)
  case (JObject kvs)
  assume a: "PlannerNodeSchema x = Inl iss"
  show ?thesis
  proof
    assume "iss = []"
    with a JObject have
      "issues_of (z_string_min1 (map_of kvs ''id'')) = []"
      "issues_of (z_string_min1 (map_of kvs ''task'')) = []"
      "issues_of (z_string_array_default (map_of kvs ''dependsOn'')) = []"
      "issues_of (z_string_optional (map_of kvs ''assignTo'')) = []"
      and ni: "\<not> (isl (z_string_min1 (map_of kvs ''id'')) = False
             \<and> isl (z_string_min1 (map_of kvs ''task'')) = False
             \<and> isl (z_string_array_default (map_of kvs ''dependsOn'')) = False
             \<and> isl (z_string_optional (map_of kvs ''assignTo'')) = False)"
      by (auto simp add: PlannerNodeSchema_def Let_def split: sum.splits)
    then show False
      using component_issues_nonempty(1) [of "map_of kvs ''id''" "[]"]
        component_issues_nonempty(1) [of "map_of kvs ''task''" "[]"]
        component_issues_nonempty(3) [of "map_of kvs ''dependsOn''" "[]"]
        component_issues_nonempty(2) [of "map_of kvs ''assignTo''" "[]"]
      by (auto simp add: issues_of_def split: sum.splits)
  qed
qed (simp_all add: PlannerNodeSchema_def, auto)

lemma nodes_of_valid:
  "\<forall>x \<in> set xs. issues_of (PlannerNodeSchema x) = [] \<Longrightarrow>
     list_all2 node_shape xs
       (concat (map (\<lambda>x. case PlannerNodeSchema x of Inr n \<Rightarrow> [n] | Inl _ \<Rightarrow> []) xs))"
proof (induction xs)
  case Nil
  then show ?case by simp
next
  case (Cons x xs)
  from Cons.prems have i: "issues_of (PlannerNodeSchema x) = []" by simp
  obtain n where n: "PlannerNodeSchema x = Inr n"
  proof (cases "PlannerNodeSchema x")
    case (Inl iss)
    with i have "iss = []" by (simp add: issues_of_def)
    with PlannerNodeSchema_Inl [OF Inl] show ?thesis by simp
  next
    case (Inr n)
    then show ?thesis by (rule that)
  qed
  from Cons.IH Cons.prems PlannerNodeSchema_Inr [OF n] show ?case by (simp add: n)
qed

lemma z_nodes_Inr:
  assumes "z_nodes v = Inr ns"
  shows "\<exists>xs. v = Some (JArray xs) \<and> xs \<noteq> [] \<and> list_all2 node_shape xs ns"
proof -
  from assms obtain xs where v: "v = Some (JArray xs)"
    by (auto simp add: z_nodes_def split: option.splits json.splits)
  from assms v have e: "concat (map (\<lambda>x. issues_of (PlannerNodeSchema x)) xs) = []"
    and ne: "xs \<noteq> []"
    and ns: "ns = concat (map (\<lambda>x. case PlannerNodeSchema x of Inr n \<Rightarrow> [n] | Inl _ \<Rightarrow> []) xs)"
    by (auto simp add: z_nodes_def Let_def split: if_splits)
  from e have "\<forall>x \<in> set xs. issues_of (PlannerNodeSchema x) = []" by simp
  from nodes_of_valid [OF this] show ?thesis using v ne ns by simp
qed

lemma PlannerResponseSchema_Inr:
  assumes "PlannerResponseSchema j = Inr v"
  shows "response_shape j v"
proof -
  from assms obtain kvs where j: "j = JObject kvs"
    by (cases j) (simp_all add: PlannerResponseSchema_def)
  from assms j have "z_nodes (map_of kvs ''nodes'') = Inr (plan_nodes v)"
    by (auto simp add: PlannerResponseSchema_def Let_def split: sum.splits)
  from z_nodes_Inr [OF this] show ?thesis
    unfolding response_shape_def j by auto
qed

lemma parseOrThrow_cases:
  "(\<exists>v. schema data = Inr v \<and> parseOrThrow zm schema data context = Inr v)
   \<or> (\<exists>e. isl (schema data) \<and> parseOrThrow zm schema data context = Inl e
          \<and> code e = VALIDATION_FAILED \<and> error_name e = ''ValidationError'')"
  by (cases "schema data") (simp_all add: parseOrThrow_def ValidationError_def)

subsection \<open>Stripping at the very start and the outcome of parseResponse\<close>

lemma strip_leading_at_start:
  "match_leading True raw = Some n \<Longrightarrow> strip_leading raw = drop n raw"
  by (cases raw) (simp_all add: strip_leading_def match_leading_def fence_def)

lemma parseResponse_parse_failure:
  assumes "JSON_parse (cleaned raw) = Inl err"
  shows "fst (parseResponse JSON_parse zod_message raw)
           = Inl (ParseError (''Planner returned invalid JSON: '' @ err))"
    and "snd (parseResponse JSON_parse zod_message raw)
           = [\<lparr>log_message = ''Failed to parse planner response'', log_raw = take 500 raw\<rparr>]"
  using assms by (simp_all add: parseResponse_def)

lemma parseResponse_parsed:
  assumes "JSON_parse (cleaned raw) = Inr j"
  shows "parseResponse JSON_parse zod_message raw
           = (parseOrThrow zod_message PlannerResponseSchema j ''Planner response'', [])"
  using assms by (simp add: parseResponse_def)

lemma ParseError_code: "code (ParseError m) = PARSE_FAILED"
  by (simp add: ParseError_def)

lemma plan_parse_error:
  assumes "callLlm (buildPrompt availableAgents goal_text) = Inr raw"
    and "fst (parseResponse JSON_parse zod_message raw) = Inl e"
  shows "plan callLlm createTaskGraph JSON_parse zod_message availableAgents goal_text
           = (Inl e, snd (parseResponse JSON_parse zod_message raw))"
  using assms
  by (cases "parseResponse JSON_parse zod_message raw") (simp add: plan_def Let_def)

subsection \<open>The first match\<close>

lemma line_start_Cons: "line_start bol (c # pre) = line_start (is_lineTerminator c) pre"
  by (simp add: line_start_def)

lemma replace_first_none:
  "(\<forall>k < length s. m (line_start bol (take k s)) (drop k s) = None) \<Longrightarrow> replace_first m bol s = s"
proof (induction s arbitrary: bol)
  case Nil
  then show ?case by simp
next
  case (Cons c cs)
  from Cons.prems [rule_format, of 0] have n: "m bol (c # cs) = None" by (simp add: line_start_def)
  have "\<forall>k < length cs. m (line_start (is_lineTerminator c) (take k cs)) (drop k cs) = None"
  proof (intro allI impI)
    fix k assume "k < length cs"
    with Cons.prems [rule_format, of "Suc k"] show
      "m (line_start (is_lineTerminator c) (take k cs)) (drop k cs) = None"
      by (simp add: line_start_Cons)
  qed
  from Cons.IH [OF this] n show ?case by simp
qed

lemma replace_first_first:
  "k < length s \<Longrightarrow> m (line_start bol (take k s)) (drop k s) = Some n
   \<Longrightarrow> (\<forall>j < k. m (line_start bol (take j s)) (drop j s) = None)
   \<Longrightarrow> replace_first m bol s = take k s @ drop (k + n) s"
proof (induction s arbitrary: bol k)
  case Nil
  then show ?case by simp
next
  case (Cons c cs)
  show ?case
  proof (cases k)
    case 0
    with Cons.prems(2) show ?thesis by (simp add: line_start_def)
  next
    case (Suc k')
    from Cons.prems(3) [rule_format, of 0] Suc have n0: "m bol (c # cs) = None"
      by (simp add: line_start_def)
    have a: "k' < length cs" using Cons.prems(1) Suc by simp
    have b: "m (line_start (is_lineTerminator c) (take k' cs)) (drop k' cs) = Some n"
      using Cons.prems(2) Suc by (simp add: line_start_Cons)
    have c: "\<forall>j < k'. m (line_start (is_lineTerminator c) (take j cs)) (drop j cs) = None"
    proof (intro allI impI)
      fix j assume "j < k'"
      with Cons.prems(3) [rule_format, of "Suc j"] Suc show
        "m (line_start (is_lineTerminator c) (take j cs)) (drop j cs) = None"
        by (simp add: line_start_Cons)
    qed
    from Cons.IH [OF a b c] n0 Suc show ?thesis by simp
  qed
qed

lemma line_start_True: "line_start True pre = at_line_start pre"
  by (simp add: line_start_def at_line_start_def)

subsection \<open>The opening marker\<close>

lemma match_leading_None_iff:
  "match_leading (line_start True (take k s)) (drop k s) = None \<longleftrightarrow> \<not> opens_at s k"
  by (simp add: match_leading_def opens_at_def line_start_True Let_def)

lemma match_leading_at:
  assumes "opens_at s k"
  shows "\<exists>n. match_leading (line_start True (take k s)) (drop k s) = Some n
            \<and> drop (k + n) s
                = dropWhile is_space (drop (k + (if take 4 (drop (k + 3) s) = ''json'' then 7 else 3)) s)"
proof -
  define a :: nat where "a = (if take 4 (drop (k + 3) s) = ''json'' then 7 else 3)"
  define n where "n = a + length (takeWhile is_space (drop (k + a) s))"
  have m: "match_leading (line_start True (take k s)) (drop k s) = Some n"
    using assms
    by (auto simp add: match_leading_def opens_at_def line_start_True Let_def n_def a_def
        add.commute add.left_commute)
  have "k + n = length (takeWhile is_space (drop (k + a) s)) + (k + a)"
    by (simp add: n_def)
  then have "drop (k + n) s = drop (length (takeWhile is_space (drop (k + a) s))) (drop (k + a) s)"
    by (simp only: drop_drop)
  also have "\<dots> = dropWhile is_space (drop (k + a) s)"
    by (simp add: dropWhile_eq_drop)
  finally show ?thesis using m unfolding a_def by blast
qed

lemma opens_at_less: "opens_at s k \<Longrightarrow> k < length s"
  by (cases "k < length s") (simp_all add: opens_at_def fence_def)

lemma strip_leading_none: "(\<forall>k. \<not> opens_at raw k) \<Longrightarrow> strip_leading raw = raw"
  unfolding strip_leading_def
  by (rule replace_first_none) (simp add: match_leading_None_iff)

lemma strip_leading_first:
  assumes "opens_at raw k" and "\<forall>j < k. \<not> opens_at raw j"
  shows "strip_leading raw
           = take k raw
             @ dropWhile is_space
                 (drop (k + (if take 4 (drop (k + 3) raw) = ''json'' then 7 else 3)) raw)"
proof -
  from match_leading_at [OF assms(1)] obtain n where
    n: "match_leading (line_start True (take k raw)) (drop k raw) = Some n"
    and d: "drop (k + n) raw
              = dropWhile is_space
                  (drop (k + (if take 4 (drop (k + 3) raw) = ''json'' then 7 else 3)) raw)"
    by blast
  have "\<forall>j < k. match_leading (line_start True (take j raw)) (drop j raw) = None"
    using assms(2) by (simp add: match_leading_None_iff)
  from replace_first_first [OF opens_at_less [OF assms(1)] n this] d
  show ?thesis by (simp add: strip_leading_def)
qed

subsection \<open>The closing marker\<close>

lemma last_lineTerminator_None:
  "last_lineTerminator ws = None \<Longrightarrow> q < length ws \<Longrightarrow> \<not> is_lineTerminator (ws ! q)"
proof -
  assume a: "last_lineTerminator ws = None" and q: "q < length ws"
  from a have "filter (\<lambda>k. is_lineTerminator (ws ! k)) (rev [0..<length ws]) = []"
    by (simp add: last_lineTerminator_def split: list.splits)
  then have "\<forall>k \<in> set (rev [0..<length ws]). \<not> is_lineTerminator (ws ! k)"
    by (simp add: filter_empty_conv)
  with q show ?thesis by simp
qed

lemma last_lineTerminator_greatest:
  assumes "last_lineTerminator ws = Some k" and "k < q" and "q < length ws"
  shows "\<not> is_lineTerminator (ws ! q)"
proof -
  from assms(1) obtain ks where
    "filter (\<lambda>k. is_lineTerminator (ws ! k)) (rev [0..<length ws]) = k # ks"
    by (auto simp add: last_lineTerminator_def split: list.splits)
  then obtain us vs where r: "rev [0..<length ws] = us @ k # vs"
    and u: "\<forall>u \<in> set us. \<not> is_lineTerminator (ws ! u)"
    by (auto simp add: filter_eq_Cons_iff)
  have "sorted_wrt (>) (rev [0..<length ws])"
    by (simp add: sorted_wrt_rev)
  then have "sorted_wrt (>) (us @ k # vs)" by (simp only: r)
  then have v: "\<forall>y \<in> set vs. y < k" by (simp add: sorted_wrt_append)
  have "q \<in> set (rev [0..<length ws])" using assms(3) by simp
  then have "q \<in> set us \<or> q = k \<or> q \<in> set vs" by (auto simp add: r)
  with v assms(2) have "q \<in> set us" by auto
  with u show ?thesis by simp
qed

lemma length_takeWhile_ge:
  "list_all P (take q xs) \<Longrightarrow> q \<le> length xs \<Longrightarrow> q \<le> length (takeWhile P xs)"
proof (induction xs arbitrary: q)
  case Nil
  then show ?case by simp
next
  case (Cons x xs)
  then show ?case by (cases q) simp_all
qed

lemma is_lineTerminator_space: "is_lineTerminator c \<Longrightarrow> is_space c"
  by (auto simp add: is_lineTerminator_def is_space_def)

lemma match_trailing_cover:
  assumes le: "n' \<le> length rest"
    and cm: "is_close_marker (take n' rest)"
    and ae: "at_line_end (drop n' rest)"
  shows "\<exists>n. match_trailing bol rest = Some n \<and> n' \<le> n"
proof -
  define n0 :: nat where "n0 = (if take 1 rest = [CHR 0x0A] then 1 else 0)"
  define r0 where "r0 = drop n0 rest"
  define r1 where "r1 = drop 3 r0"
  define ws where "ws = takeWhile is_space r1"
  define after where "after = dropWhile is_space r1"
  have mt: "match_trailing bol rest =
      (if take 3 r0 = fence then
         (if after = [] then Some (n0 + 3 + length ws)
          else (case last_lineTerminator ws of None \<Rightarrow> None | Some k \<Rightarrow> Some (n0 + 3 + k)))
       else None)"
    by (simp only: match_trailing_def Let_def n0_def r0_def r1_def ws_def after_def)
  have r1: "r1 = ws @ after" unfolding ws_def after_def by simp
  have r1d: "r1 = drop (n0 + 3) rest" unfolding r1_def r0_def by (simp add: add.commute)
  have shape: "take 3 r0 = fence \<and> n0 + 3 \<le> n' \<and> list_all is_space (take (n' - (n0 + 3)) r1)"
  proof -
    from cm consider
      (plain) "take 3 (take n' rest) = fence" "list_all is_space (drop 3 (take n' rest))"
      | (nl) "take 1 (take n' rest) = [CHR 0x0A]" "take 3 (drop 1 (take n' rest)) = fence"
          "list_all is_space (drop 4 (take n' rest))"
      unfolding is_close_marker_def by blast
    then show ?thesis
    proof cases
      case plain
      have "length (take 3 (take n' rest)) = length fence" by (simp only: plain(1))
      then have n3: "3 \<le> n'" by (simp add: fence_def)
      with plain(1) have f: "take 3 rest = fence" by (simp add: min_def)
      then have "take 1 rest \<noteq> [CHR 0x0A]"
        by (cases rest) (auto simp add: fence_def)
      then have z: "n0 = 0" by (simp add: n0_def)
      have "drop 3 (take n' rest) = take (n' - 3) (drop 3 rest)" by (simp add: drop_take)
      with plain(2) f n3 z show ?thesis by (simp add: r0_def r1_def)
    next
      case nl
      have "length (take 3 (drop 1 (take n' rest))) = length fence" by (simp only: nl(2))
      then have n4: "4 \<le> n'" by (simp add: fence_def)
      with nl(1) have "take 1 rest = [CHR 0x0A]" by (simp add: min_def)
      then have z: "n0 = 1" by (simp add: n0_def)
      have "drop 1 (take n' rest) = take (n' - 1) (drop 1 rest)" by (simp add: drop_take)
      moreover from n4 have "min 3 (n' - 1) = 3" by simp
      ultimately have f: "take 3 (drop 1 rest) = fence" using nl(2) by simp
      have "drop 4 (take n' rest) = take (n' - 4) (drop 4 rest)" by (simp add: drop_take)
      with nl(3) f n4 z show ?thesis by (simp add: r0_def r1_def)
    qed
  qed
  define q where "q = n' - (n0 + 3)"
  from shape have f: "take 3 r0 = fence" and n': "n' = n0 + 3 + q"
    and sp: "list_all is_space (take q r1)"
    by (simp_all add: q_def)
  have ql: "q \<le> length r1" using le n' by (simp add: r1d)
  from length_takeWhile_ge [OF sp ql] have qw: "q \<le> length ws" by (simp add: ws_def)
  show ?thesis
  proof (cases "after = []")
    case True
    with f qw n' show ?thesis unfolding mt by simp
  next
    case False
    have dr: "drop n' rest = drop q ws @ after"
    proof -
      have "drop n' rest = drop q r1" by (simp add: n' r1d add.commute)
      also have "\<dots> = drop q ws @ after" using qw by (simp add: r1)
      finally show ?thesis .
    qed
    have ns: "\<not> is_space (hd after)"
      using False unfolding after_def by (rule hd_dropWhile)
    have lt: "is_lineTerminator (hd (drop q ws @ after))"
      using ae False by (simp add: dr at_line_end_def)
    have q: "q < length ws"
    proof (rule ccontr)
      assume "\<not> q < length ws"
      with qw have "drop q ws = []" by simp
      with lt ns is_lineTerminator_space show False by auto
    qed
    then have "hd (drop q ws @ after) = ws ! q" by (simp add: hd_drop_conv_nth)
    with lt have t: "is_lineTerminator (ws ! q)" by simp
    show ?thesis
    proof (cases "last_lineTerminator ws")
      case None
      from last_lineTerminator_None [OF None q] t show ?thesis by simp
    next
      case (Some k)
      have "q \<le> k"
      proof (rule ccontr)
        assume "\<not> q \<le> k"
        then have "k < q" by simp
        from last_lineTerminator_greatest [OF Some this q] t show False by simp
      qed
      with f False Some n' show ?thesis unfolding mt by simp
    qed
  qed
qed

lemma closes_with_match:
  assumes "match_trailing bol (drop k s) = Some n"
  shows "closes_with s k n"
proof -
  from match_trailing_Some [OF assms] have "n \<le> length (drop k s)"
    and "is_close_marker (take n (drop k s))" and "at_line_end (drop n (drop k s))"
    by simp_all
  moreover have "k < length s"
  proof (rule ccontr)
    assume "\<not> k < length s"
    then have "drop k s = []" by simp
    with assms show False by (simp add: match_trailing_def fence_def)
  qed
  ultimately show ?thesis by (simp add: closes_with_def add.commute)
qed

lemma match_closes_with:
  assumes "closes_with s k n"
  shows "\<exists>n1. match_trailing bol (drop k s) = Some n1 \<and> n \<le> n1"
proof (rule match_trailing_cover)
  from assms show "n \<le> length (drop k s)" "is_close_marker (take n (drop k s))"
    "at_line_end (drop n (drop k s))"
    unfolding closes_with_def by (auto simp add: add.commute)
qed

lemma closes_with_less: "closes_with s k n \<Longrightarrow> k < length s"
  by (cases "k < length s") (simp_all add: closes_with_def is_close_marker_def fence_def)

lemma strip_trailing_none: "(\<forall>k n. \<not> closes_with s k n) \<Longrightarrow> strip_trailing s = s"
  unfolding strip_trailing_def
proof (rule replace_first_none, intro allI impI)
  fix k
  assume a: "\<forall>k n. \<not> closes_with s k n"
  show "match_trailing (line_start True (take k s)) (drop k s) = None"
  proof (cases "match_trailing (line_start True (take k s)) (drop k s)")
    case (Some n)
    from closes_with_match [OF Some] a show ?thesis by simp
  qed simp
qed

lemma strip_trailing_first:
  assumes c: "closes_with s k n"
    and g: "\<forall>n' > n. \<not> closes_with s k n'"
    and f: "\<forall>j < k. \<forall>n'. \<not> closes_with s j n'"
  shows "strip_trailing s = take k s @ drop (k + n) s"
proof -
  from match_closes_with [OF c, of "line_start True (take k s)"] obtain n1 where
    m: "match_trailing (line_start True (take k s)) (drop k s) = Some n1" and le: "n \<le> n1"
    by blast
  from closes_with_match [OF m] g le have "n1 = n"
    by (cases "n < n1") auto
  with m have m': "match_trailing (line_start True (take k s)) (drop k s) = Some n" by simp
  have "\<forall>j < k. match_trailing (line_start True (take j s)) (drop j s) = None"
  proof (intro allI impI)
    fix j assume j: "j < k"
    show "match_trailing (line_start True (take j s)) (drop j s) = None"
    proof (cases "match_trailing (line_start True (take j s)) (drop j s)")
      case (Some n')
      from closes_with_match [OF Some] f j show ?thesis by simp
    qed simp
  qed
  from replace_first_first [OF closes_with_less [OF c] m' this]
  show ?thesis by (simp add: strip_trailing_def)
qed

lemma closes_with_le: "closes_with s k n \<Longrightarrow> n \<le> length s"
  by (simp add: closes_with_def)

section \<open>The planner's reading of the response\<close>

text \<open>
  Claim C8, as the code has it. \<open>Planner.plan\<close> hands the response of the language
  model to \<open>parseResponse\<close>, and an error of \<open>parseResponse\<close> is the error of \<open>plan\<close>,
  with the same log entries. \<open>parseResponse\<close> removes the first opening fenced-code
  marker that starts a line, on whatever line of the response it stands: the fence,
  \<open>json\<close> if it follows, and all the white space after that. Then it removes the first
  closing marker that ends a line, on whatever line it stands, and the longest one
  at that position. Where there is no such marker nothing is removed, so at most one
  marker of each kind goes. It trims the text and parses it as JSON. When
  \<open>JSON.parse\<close> throws, the error has the code \<open>PARSE_FAILED\<close> and the one log entry
  carries the first 500 characters of the raw response, so at most 500. When it
  returns a value, nothing is logged, and the result is either the value the schema
  gives, whose shape is then right (\<open>nodes\<close> is a non-empty array of objects, each
  with a non-empty string \<open>id\<close> and \<open>task\<close>, \<open>dependsOn\<close> empty when absent,
  \<open>assignTo\<close> absent when absent), or an error with the code \<open>VALIDATION_FAILED\<close>.
\<close>

theorem parseResponse_strips_parses_validates:
  "((\<forall>k. \<not> opens_at raw k) \<longrightarrow> strip_leading raw = raw)
   \<and> (\<forall>k. opens_at raw k \<and> (\<forall>j < k. \<not> opens_at raw j) \<longrightarrow>
          strip_leading raw
            = take k raw
              @ dropWhile is_space
                  (drop (k + (if take 4 (drop (k + 3) raw) = ''json'' then 7 else 3)) raw))
   \<and> ((\<forall>k n. \<not> closes_with (strip_leading raw) k n) \<longrightarrow>
          strip_trailing (strip_leading raw) = strip_leading raw)
   \<and> (\<forall>k n. closes_with (strip_leading raw) k n
            \<and> (\<forall>n' > n. \<not> closes_with (strip_leading raw) k n')
            \<and> (\<forall>j < k. \<forall>n'. \<not> closes_with (strip_leading raw) j n') \<longrightarrow>
          strip_trailing (strip_leading raw)
            = take k (strip_leading raw) @ drop (k + n) (strip_leading raw))
   \<and> (strip_leading raw = raw
        \<or> (\<exists>pre m post. raw = pre @ m @ post \<and> strip_leading raw = pre @ post
              \<and> at_line_start pre \<and> is_open_marker m))
   \<and> (strip_trailing (strip_leading raw) = strip_leading raw
        \<or> (\<exists>pre m post. strip_leading raw = pre @ m @ post
              \<and> strip_trailing (strip_leading raw) = pre @ post
              \<and> is_close_marker m \<and> at_line_end post))
   \<and> cleaned raw = trim (strip_trailing (strip_leading raw))
   \<and> (\<forall>err. JSON_parse (cleaned raw) = Inl err \<longrightarrow>
          (\<exists>e. fst (parseResponse JSON_parse zod_message raw) = Inl e \<and> code e = PARSE_FAILED)
          \<and> snd (parseResponse JSON_parse zod_message raw)
              = [\<lparr>log_message = ''Failed to parse planner response'', log_raw = take 500 raw\<rparr>]
          \<and> length (take 500 raw) \<le> 500)
   \<and> (\<forall>j. JSON_parse (cleaned raw) = Inr j \<longrightarrow>
          snd (parseResponse JSON_parse zod_message raw) = []
          \<and> ((\<exists>v. fst (parseResponse JSON_parse zod_message raw) = Inr v
                  \<and> PlannerResponseSchema j = Inr v \<and> response_shape j v)
              \<or> (\<exists>e. fst (parseResponse JSON_parse zod_message raw) = Inl e
                    \<and> isl (PlannerResponseSchema j) \<and> code e = VALIDATION_FAILED)))
   \<and> (\<forall>e. callLlm (buildPrompt availableAgents goal_text) = Inr raw
          \<and> fst (parseResponse JSON_parse zod_message raw) = Inl e \<longrightarrow>
          plan callLlm createTaskGraph JSON_parse zod_message availableAgents goal_text
            = (Inl e, snd (parseResponse JSON_parse zod_message raw)))"
proof (intro conjI allI impI)
  assume "\<forall>k. \<not> opens_at raw k"
  then show "strip_leading raw = raw" by (rule strip_leading_none)
next
  fix k assume "opens_at raw k \<and> (\<forall>j < k. \<not> opens_at raw j)"
  then have "opens_at raw k" and "\<forall>j < k. \<not> opens_at raw j" by simp_all
  then show "strip_leading raw
            = take k raw
              @ dropWhile is_space
                  (drop (k + (if take 4 (drop (k + 3) raw) = ''json'' then 7 else 3)) raw)"
    by (rule strip_leading_first)
next
  assume "\<forall>k n. \<not> closes_with (strip_leading raw) k n"
  then show "strip_trailing (strip_leading raw) = strip_leading raw"
    by (rule strip_trailing_none)
next
  fix k n
  assume "closes_with (strip_leading raw) k n
            \<and> (\<forall>n' > n. \<not> closes_with (strip_leading raw) k n')
            \<and> (\<forall>j < k. \<forall>n'. \<not> closes_with (strip_leading raw) j n')"
  then have "closes_with (strip_leading raw) k n"
    and "\<forall>n' > n. \<not> closes_with (strip_leading raw) k n'"
    and "\<forall>j < k. \<forall>n'. \<not> closes_with (strip_leading raw) j n'"
    by simp_all
  then show "strip_trailing (strip_leading raw)
            = take k (strip_leading raw) @ drop (k + n) (strip_leading raw)"
    by (rule strip_trailing_first)
next
  show "strip_leading raw = raw
        \<or> (\<exists>pre m post. raw = pre @ m @ post \<and> strip_leading raw = pre @ post
              \<and> at_line_start pre \<and> is_open_marker m)"
    by (rule strip_leading_cases)
next
  show "strip_trailing (strip_leading raw) = strip_leading raw
        \<or> (\<exists>pre m post. strip_leading raw = pre @ m @ post
              \<and> strip_trailing (strip_leading raw) = pre @ post
              \<and> is_close_marker m \<and> at_line_end post)"
    by (rule strip_trailing_cases)
next
  show "cleaned raw = trim (strip_trailing (strip_leading raw))" by (simp add: cleaned_def)
next
  fix err assume a: "JSON_parse (cleaned raw) = Inl err"
  show "\<exists>e. fst (parseResponse JSON_parse zod_message raw) = Inl e \<and> code e = PARSE_FAILED"
    using parseResponse_parse_failure(1)
      [where JSON_parse = JSON_parse and raw = raw and zod_message = zod_message, OF a]
    by (simp add: ParseError_code)
  show "snd (parseResponse JSON_parse zod_message raw)
          = [\<lparr>log_message = ''Failed to parse planner response'', log_raw = take 500 raw\<rparr>]"
    by (rule parseResponse_parse_failure(2) [where JSON_parse = JSON_parse and raw = raw, OF a])
  show "length (take 500 raw) \<le> 500" by simp
next
  fix j assume a: "JSON_parse (cleaned raw) = Inr j"
  note p = parseResponse_parsed
    [where JSON_parse = JSON_parse and raw = raw and zod_message = zod_message, OF a]
  show "snd (parseResponse JSON_parse zod_message raw) = []" by (simp add: p)
  from parseOrThrow_cases [of PlannerResponseSchema j zod_message "''Planner response''"]
  show "(\<exists>v. fst (parseResponse JSON_parse zod_message raw) = Inr v
            \<and> PlannerResponseSchema j = Inr v \<and> response_shape j v)
        \<or> (\<exists>e. fst (parseResponse JSON_parse zod_message raw) = Inl e
              \<and> isl (PlannerResponseSchema j) \<and> code e = VALIDATION_FAILED)"
  proof (elim disjE exE conjE)
    fix v assume s: "PlannerResponseSchema j = Inr v"
      and r: "parseOrThrow zod_message PlannerResponseSchema j ''Planner response'' = Inr v"
    from PlannerResponseSchema_Inr [OF s] s r show ?thesis by (simp add: p)
  next
    fix e assume "isl (PlannerResponseSchema j)"
      and "parseOrThrow zod_message PlannerResponseSchema j ''Planner response'' = Inl e"
      and "code e = VALIDATION_FAILED"
    then show ?thesis by (simp add: p)
  qed
next
  fix e
  assume "callLlm (buildPrompt availableAgents goal_text) = Inr raw
          \<and> fst (parseResponse JSON_parse zod_message raw) = Inl e"
  then show "plan callLlm createTaskGraph JSON_parse zod_message availableAgents goal_text
            = (Inl e, snd (parseResponse JSON_parse zod_message raw))"
    by (simp add: plan_parse_error)
qed

text \<open>
  The theorem at four responses. In \<open>fence_inside\<close> the first opening marker starts
  the second line, at position 4, and is removed. In \<open>closed_only\<close> there is no
  opening marker and the closing marker, the fence at position 2, is removed; the text parses and does not validate. \<open>fenced_response\<close> parses and
  validates. The last response is not JSON.
\<close>

theorem parseResponse_strips_parses_validates_witness:
  "opens_at fence_inside 4
   \<and> list_all (\<lambda>j. \<not> opens_at fence_inside j) [0..<4]
   \<and> strip_leading fence_inside = ''[1,'' @ [CHR 0x0A] @ ''2]''
   \<and> list_all (\<lambda>k. \<not> opens_at closed_only k) [0..<length closed_only]
   \<and> strip_leading closed_only = closed_only
   \<and> closes_with closed_only 2 3
   \<and> strip_trailing (strip_leading closed_only) = ''{}''
   \<and> toy_parse (cleaned closed_only) = Inr (JObject [])
   \<and> (\<exists>e. fst (parseResponse toy_parse (\<lambda>i. ''invalid'') closed_only) = Inl e
          \<and> code e = VALIDATION_FAILED)
   \<and> toy_parse (cleaned fenced_response) = Inr one_node
   \<and> parseResponse toy_parse (\<lambda>i. ''invalid'') fenced_response
       = (Inr \<lparr>plan_nodes = [\<lparr>plan_id = ''a'', plan_task = ''t'', plan_dependsOn = [],
                               plan_assignTo = None\<rparr>],
               plan_synthesizerPrompt = None\<rparr>, [])
   \<and> toy_parse (cleaned ''nope'') = Inl ''SyntaxError''
   \<and> (\<exists>e. fst (parseResponse toy_parse (\<lambda>i. ''invalid'') ''nope'') = Inl e
          \<and> code e = PARSE_FAILED)
   \<and> snd (parseResponse toy_parse (\<lambda>i. ''invalid'') ''nope'')
       = [\<lparr>log_message = ''Failed to parse planner response'', log_raw = ''nope''\<rparr>]"
proof -
  let ?zm = "\<lambda>i::zod_issue. ''invalid''"
  note t0 = parseResponse_strips_parses_validates
    [of fence_inside toy_parse ?zm "\<lambda>p. Inr fence_inside" "[]" "[]" "\<lambda>g ns p. Inr ()"]
  note t1 = parseResponse_strips_parses_validates
    [of fenced_response toy_parse ?zm "\<lambda>p. Inr fenced_response" "[]" "[]" "\<lambda>g ns p. Inr ()"]
  note t2 = parseResponse_strips_parses_validates
    [of "''nope''" toy_parse ?zm "\<lambda>p. Inr ''nope''" "[]" "[]" "\<lambda>g ns p. Inr ()"]
  note t3 = parseResponse_strips_parses_validates
    [of closed_only toy_parse ?zm "\<lambda>p. Inr closed_only" "[]" "[]" "\<lambda>g ns p. Inr ()"]
  \<comment> \<open>the opening marker on the second line\<close>
  have o4: "opens_at fence_inside 4" by code_simp
  have o3: "list_all (\<lambda>j. \<not> opens_at fence_inside j) [0..<4]" by code_simp
  then have o3': "\<forall>j < 4. \<not> opens_at fence_inside j" by (simp add: list_all_iff)
  have d0: "take 4 fence_inside
              @ dropWhile is_space
                  (drop (4 + (if take 4 (drop (4 + 3) fence_inside) = ''json'' then 7 else 3))
                     fence_inside)
            = ''[1,'' @ [CHR 0x0A] @ ''2]''"
    by code_simp
  from t0 o4 o3' have "strip_leading fence_inside
            = take 4 fence_inside
              @ dropWhile is_space
                  (drop (4 + (if take 4 (drop (4 + 3) fence_inside) = ''json'' then 7 else 3))
                     fence_inside)"
    by blast
  then have s0: "strip_leading fence_inside = ''[1,'' @ [CHR 0x0A] @ ''2]''" by (simp only: d0)
  \<comment> \<open>a closing marker and no opening marker\<close>
  have no: "list_all (\<lambda>k. \<not> opens_at closed_only k) [0..<length closed_only]" by code_simp
  have no': "\<forall>k. \<not> opens_at closed_only k"
  proof
    fix k show "\<not> opens_at closed_only k"
    proof (cases "k < length closed_only")
      case True
      with no show ?thesis by (simp add: list_all_iff)
    next
      case False
      then show ?thesis using opens_at_less by blast
    qed
  qed
  from t3 no' have s3: "strip_leading closed_only = closed_only" by blast
  have c24: "closes_with closed_only 2 3" by code_simp
  have len: "length closed_only = 5" by code_simp
  have cg: "\<forall>n' > 3. \<not> closes_with closed_only 2 n'"
    by (auto simp add: closes_with_def len)
  have cf0: "list_all (\<lambda>j. list_all (\<lambda>n'. \<not> closes_with closed_only j n') [0..<6]) [0..<2]"
    by code_simp
  have cf: "\<forall>j < 2. \<forall>n'. \<not> closes_with closed_only j n'"
  proof (intro allI impI)
    fix j n' assume j: "j < (2::nat)"
    show "\<not> closes_with closed_only j n'"
    proof (cases "n' < 6")
      case True
      with cf0 j show ?thesis by (simp add: list_all_iff)
    next
      case False
      then show ?thesis using closes_with_le [of closed_only j n'] by (auto simp add: len)
    qed
  qed
  have d3: "take 2 closed_only @ drop (2 + 3) closed_only = ''{}''" by code_simp
  from t3 c24 cg cf have "strip_trailing (strip_leading closed_only)
      = take 2 (strip_leading closed_only) @ drop (2 + 3) (strip_leading closed_only)"
    unfolding s3 by blast
  then have st3: "strip_trailing (strip_leading closed_only) = ''{}''"
    unfolding s3 by (simp only: d3)
  from t3 have "cleaned closed_only = trim (strip_trailing (strip_leading closed_only))"
    by blast
  then have c3: "cleaned closed_only = ''{}''" unfolding st3 by code_simp
  have p3: "toy_parse (cleaned closed_only) = Inr (JObject [])"
    unfolding c3 by (simp add: toy_parse_def)
  have v3: "\<not> isl (PlannerResponseSchema (JObject [])) \<longrightarrow> False" by code_simp
  from t3 p3 v3 have r3: "\<exists>e. fst (parseResponse toy_parse ?zm closed_only) = Inl e
          \<and> code e = VALIDATION_FAILED"
    by auto
  \<comment> \<open>a fenced block that validates\<close>
  have c1: "cleaned fenced_response = one_node_text" by code_simp
  have p1: "toy_parse (cleaned fenced_response) = Inr one_node"
    unfolding c1 by (simp add: toy_parse_def one_node_text_def)
  have v1: "PlannerResponseSchema one_node
              = Inr \<lparr>plan_nodes = [\<lparr>plan_id = ''a'', plan_task = ''t'', plan_dependsOn = [],
                                     plan_assignTo = None\<rparr>],
                     plan_synthesizerPrompt = None\<rparr>"
    by code_simp
  from t1 p1 have r1: "parseResponse toy_parse ?zm fenced_response
       = (Inr \<lparr>plan_nodes = [\<lparr>plan_id = ''a'', plan_task = ''t'', plan_dependsOn = [],
                               plan_assignTo = None\<rparr>],
               plan_synthesizerPrompt = None\<rparr>, [])"
    by (auto simp add: v1 prod_eq_iff)
  \<comment> \<open>a text that is not JSON\<close>
  have p2: "toy_parse (cleaned ''nope'') = Inl ''SyntaxError''" by code_simp
  from t2 p2 have r2: "\<exists>e. fst (parseResponse toy_parse ?zm ''nope'') = Inl e \<and> code e = PARSE_FAILED"
    and l2: "snd (parseResponse toy_parse ?zm ''nope'')
       = [\<lparr>log_message = ''Failed to parse planner response'', log_raw = ''nope''\<rparr>]"
    by simp_all
  from o4 o3 s0 no s3 c24 st3 p3 r3 p1 r1 p2 r2 l2 show ?thesis by (intro conjI)
qed

text \<open>
  The reading with leading and trailing markers only does not hold of the code. In
  the response \<open>fence_inside\<close> the fence stands on the second of three lines. The code
  removes it, the text parses, and the outcome is \<open>VALIDATION_FAILED\<close>. Stripping a
  leading and a trailing marker only leaves the response as it is; it does not parse,
  and the outcome would be \<open>PARSE_FAILED\<close>.
\<close>

theorem parseResponse_strips_inner_fence:
  "fence_inside = ''[1,'' @ [CHR 0x0A] @ ''```'' @ [CHR 0x0A] @ ''2]''
   \<and> match_leading True fence_inside = None
   \<and> cleaned fence_inside = ''[1,'' @ [CHR 0x0A] @ ''2]''
   \<and> cleaned_leading_trailing_only fence_inside = fence_inside
   \<and> cleaned fence_inside \<noteq> cleaned_leading_trailing_only fence_inside
   \<and> toy_parse (cleaned fence_inside) = Inr (JArray [JNumber 1, JNumber 2])
   \<and> toy_parse (cleaned_leading_trailing_only fence_inside) = Inl ''SyntaxError''
   \<and> snd (parseResponse toy_parse (\<lambda>i. ''invalid'') fence_inside) = []
   \<and> (\<exists>e. fst (parseResponse toy_parse (\<lambda>i. ''invalid'') fence_inside) = Inl e
          \<and> code e = VALIDATION_FAILED \<and> code e \<noteq> PARSE_FAILED)"
proof -
  have a: "fence_inside = ''[1,'' @ [CHR 0x0A] @ ''```'' @ [CHR 0x0A] @ ''2]''"
    by (simp add: fence_inside_def fence_def)
  have b: "match_leading True fence_inside = None" by code_simp
  have c: "cleaned fence_inside = ''[1,'' @ [CHR 0x0A] @ ''2]''" by code_simp
  have d: "cleaned_leading_trailing_only fence_inside = fence_inside" by code_simp
  have e: "cleaned fence_inside \<noteq> cleaned_leading_trailing_only fence_inside"
    unfolding c d by (simp add: fence_inside_def)
  have f: "toy_parse (cleaned fence_inside) = Inr (JArray [JNumber 1, JNumber 2])"
    unfolding c by (simp add: toy_parse_def one_node_text_def)
  have g: "toy_parse (cleaned_leading_trailing_only fence_inside) = Inl ''SyntaxError''"
    unfolding d by code_simp
  have h: "parseResponse toy_parse (\<lambda>i. ''invalid'') fence_inside
             = (parseOrThrow (\<lambda>i. ''invalid'') PlannerResponseSchema
                  (JArray [JNumber 1, JNumber 2]) ''Planner response'', [])"
    by (rule parseResponse_parsed [where JSON_parse = toy_parse and raw = fence_inside, OF f])
  have i: "code (ValidationError VALIDATION_FAILED m) = VALIDATION_FAILED" for m
    by (simp add: ValidationError_def)
  have k: "\<exists>e. fst (parseResponse toy_parse (\<lambda>i. ''invalid'') fence_inside) = Inl e
          \<and> code e = VALIDATION_FAILED \<and> code e \<noteq> PARSE_FAILED"
    unfolding h by (simp add: parseOrThrow_def PlannerResponseSchema_def i)
  have l: "snd (parseResponse toy_parse (\<lambda>i. ''invalid'') fence_inside) = []"
    unfolding h by simp
  from a b c d e f g l k show ?thesis by (intro conjI)
qed

end
